theory Spec2Isabelle
  imports Complex_Main
begin

section \<open>Numbers, vectors and the precision context\<close>

text \<open>
  The kernel of \<^verbatim>\<open>src/src/barycentric.cpp\<close> computes with \<^verbatim>\<open>mpfr::mpreal\<close>.  It is
  embedded twice.  This first embedding is the exact-arithmetic reading of the code, for the
  properties that the specification states in exact arithmetic: an \<^verbatim>\<open>mpreal\<close> is a real
  number, no operation rounds, and a division by zero, which has no value among the real
  numbers, ends the computation of the value with \<open>DivisionByZero\<close>.  The second embedding,
  further down, is the code in MPFR arithmetic: every operation rounds, a division by zero
  gives an infinity and the run goes on.  In both, \<^verbatim>\<open>std::vector::operator[]\<close> beyond the
  size of the vector, undefined in C++, is reported as \<open>OutOfRange\<close>.
\<close>

datatype error = DivisionByZero | OutOfRange

definition mp_div :: "real \<Rightarrow> real \<Rightarrow> error + real" where
  "mp_div a b = (if b = 0 then Inl DivisionByZero else Inr (a / b))"

definition fma :: "real \<Rightarrow> real \<Rightarrow> real \<Rightarrow> real" where
  "fma a b c = a * b + c"

definition vec_get :: "'a list \<Rightarrow> nat \<Rightarrow> error + 'a" where
  "vec_get v i = (if i < length v then Inr (v ! i) else Inl OutOfRange)"

definition vec_set :: "'a list \<Rightarrow> nat \<Rightarrow> 'a \<Rightarrow> error + 'a list" where
  "vec_set v i a = (if i < length v then Inr (v[i := a]) else Inl OutOfRange)"

text \<open>
  The ambient default precision of the \<^verbatim>\<open>mpreal\<close> library, read with
  \<^verbatim>\<open>mpreal::get_default_prec()\<close> and written with
  \<^verbatim>\<open>mpreal::set_default_prec(prec)\<close>; \<^verbatim>\<open>mp_prec_t\<close> is a signed integer.
  Every entry point declares \<^verbatim>\<open>mp_prec_t prec = 165ul\<close> as its default argument.
\<close>

type_synonym mp_prec_t = int

record mp_context =
  default_prec :: mp_prec_t

definition get_default_prec :: "mp_context \<Rightarrow> mp_prec_t" where
  "get_default_prec s = default_prec s"

definition set_default_prec :: "mp_prec_t \<Rightarrow> mp_context \<Rightarrow> mp_context" where
  "set_default_prec prec s = s\<lparr>default_prec := prec\<rparr>"

definition prec_default_argument :: mp_prec_t where
  "prec_default_argument = 165"

text \<open>
  A counting loop \<^verbatim>\<open>for (std::size_t i = i0; i < n; ++i) body\<close> whose body has no
  \<^verbatim>\<open>return\<close>: the body maps the loop variables to their new values, or fails.
\<close>

function for_loop :: "nat \<Rightarrow> nat \<Rightarrow> (nat \<Rightarrow> 'a \<Rightarrow> error + 'a) \<Rightarrow> 'a \<Rightarrow> error + 'a" where
  "for_loop i n body a =
     (if i < n
      then (case body i a of Inl e \<Rightarrow> Inl e | Inr a' \<Rightarrow> for_loop (i + 1) n body a')
      else Inr a)"
  by pat_completeness auto
termination
  by (relation "measure (\<lambda>(i, n, body, a). n - i)") auto

declare for_loop.simps [simp del]

section \<open>Bands and the ideal-response lookup\<close>

text \<open>
  Modelled from the spec: the type \<^verbatim>\<open>Band\<close> is declared in \<^verbatim>\<open>band.h\<close>, which is
  not among the sources.  The fields are those the code reads
  (\<^verbatim>\<open>it.start\<close>, \<^verbatim>\<open>it.stop\<close>, \<^verbatim>\<open>it.space\<close>, \<^verbatim>\<open>it.amplitude\<close>, \<^verbatim>\<open>it.weight\<close>),
  with the types section 3 of the specification gives them.
\<close>

datatype space_t = FREQ | CHEBY

record Band =
  start :: real
  stop :: real
  space :: space_t
  amplitude :: "space_t \<Rightarrow> real \<Rightarrow> real"
  weight :: "space_t \<Rightarrow> real \<Rightarrow> real"

text \<open>
  \<^verbatim>\<open>computeIdealResponseAndWeight(D, W, xVal, bands)\<close>: \<open>D\<close> and \<open>W\<close> are reference
  parameters, so the model takes their values at entry and returns their values at exit.
\<close>

fun computeIdealResponseAndWeight ::
  "real \<Rightarrow> real \<Rightarrow> real \<Rightarrow> Band list \<Rightarrow> real \<times> real" where
  "computeIdealResponseAndWeight D W xVal [] = (D, W)"
| "computeIdealResponseAndWeight D W xVal (it # rest) =
     (if xVal \<ge> start it \<and> xVal \<le> stop it
      then (amplitude it (space it) xVal, weight it (space it) xVal)
      else computeIdealResponseAndWeight D W xVal rest)"

section \<open>Barycentric weights\<close>

text \<open>
  \<^verbatim>\<open>std::size_t step = (x.size() - 2) / 15 + 1\<close>.  The subtraction is unsigned:
  below 2 it wraps around modulo \<open>2^64\<close> (a \<^verbatim>\<open>std::size_t\<close> of 64 bits; sizes and
  indices are natural numbers below that bound).
\<close>

definition size_sub :: "nat \<Rightarrow> nat \<Rightarrow> nat" where
  "size_sub a b = (if b \<le> a then a - b else a + 2 ^ 64 - b)"

definition step_of :: "nat \<Rightarrow> nat" where
  "step_of n = size_sub n 2 div 15 + 1"

text \<open>
  The innermost loop \<^verbatim>\<open>for (k = j; k < x.size(); k += step) if (k != i) denom *= ((xi - x[k]) << 1)\<close>;
  \<^verbatim>\<open>step\<close> is the constant computed from \<^verbatim>\<open>x.size()\<close> above.
\<close>

function weights_k :: "real list \<Rightarrow> nat \<Rightarrow> real \<Rightarrow> nat \<Rightarrow> real \<Rightarrow> real" where
  "weights_k x i xi k denom =
     (if k < length x
      then weights_k x i xi (k + step_of (length x))
             (if k \<noteq> i then denom * ((xi - x ! k) * 2) else denom)
      else denom)"
  by pat_completeness auto
termination
  by (relation "measure (\<lambda>(x, i, xi, k, denom). length x - k)")
     (auto simp: step_of_def)

declare weights_k.simps [simp del]

text \<open>The loop \<^verbatim>\<open>for (j = 0; j < step; ++j)\<close> around it.\<close>

function weights_j :: "real list \<Rightarrow> nat \<Rightarrow> real \<Rightarrow> nat \<Rightarrow> real \<Rightarrow> real" where
  "weights_j x i xi j denom =
     (if j < step_of (length x)
      then weights_j x i xi (j + 1) (weights_k x i xi j denom)
      else denom)"
  by pat_completeness auto
termination
  by (relation "measure (\<lambda>(x, i, xi, j, denom). step_of (length x) - j)") auto

declare weights_j.simps [simp del]

text \<open>The body of the loop over \<open>i\<close>; the loop variable is the vector \<open>w\<close>.\<close>

definition barycentricWeights_body :: "real list \<Rightarrow> nat \<Rightarrow> real list \<Rightarrow> error + real list" where
  "barycentricWeights_body x i w =
     (let denom = 1;
          xi = x ! i;
          denom = weights_j x i xi 0 denom
      in case mp_div 1 denom of
           Inl e \<Rightarrow> Inl e
         | Inr q \<Rightarrow> vec_set w i q)"

definition barycentricWeights ::
  "real list \<Rightarrow> real list \<Rightarrow> mp_prec_t \<Rightarrow> mp_context \<Rightarrow> (error + real list) \<times> mp_context" where
  "barycentricWeights w x prec s =
     (let prevPrec = get_default_prec s;
          s1 = set_default_prec prec s;
          r = for_loop 0 (length x) (barycentricWeights_body x) w
      in (r, set_default_prec prevPrec s1))"

section \<open>The reference error\<close>

text \<open>
  The loop body shared, word for word, by the two overloads of \<^verbatim>\<open>computeDelta\<close>;
  the loop variables are \<open>(num, denom, D, W)\<close>.
\<close>

definition computeDelta_body ::
  "real list \<Rightarrow> real list \<Rightarrow> Band list \<Rightarrow> nat \<Rightarrow> real \<times> real \<times> real \<times> real
     \<Rightarrow> error + real \<times> real \<times> real \<times> real" where
  "computeDelta_body w x bands i v =
     (case v of (num, denom, D, W) \<Rightarrow>
        (case vec_get x i of
           Inl e \<Rightarrow> Inl e
         | Inr xi \<Rightarrow>
             (case computeIdealResponseAndWeight D W xi bands of (D', W') \<Rightarrow>
                (let buffer = w ! i;
                     num' = fma buffer D' num
                 in case mp_div (w ! i) W' of
                      Inl e \<Rightarrow> Inl e
                    | Inr buffer \<Rightarrow>
                        (let buffer' = (if i mod 2 = 0 then - buffer else buffer)
                         in Inr (num', denom + buffer', D', W'))))))"

definition computeDelta_sums :: "real list \<Rightarrow> real list \<Rightarrow> Band list \<Rightarrow> error + real" where
  "computeDelta_sums w x bands =
     (case for_loop 0 (length w) (computeDelta_body w x bands) (0, 0, 0, 0) of
        Inl e \<Rightarrow> Inl e
      | Inr (num, denom, D, W) \<Rightarrow> mp_div num denom)"

text \<open>The overload that takes the nodes only (lines 38--62).\<close>

definition computeDelta ::
  "real list \<Rightarrow> Band list \<Rightarrow> mp_prec_t \<Rightarrow> mp_context \<Rightarrow> (error + real) \<times> mp_context" where
  "computeDelta x bands prec s =
     (let prevPrec = get_default_prec s;
          s1 = set_default_prec prec s;
          w = replicate (length x) 0
      in case barycentricWeights w x prec_default_argument s1 of (rw, s2) \<Rightarrow>
           (let delta = (case rw of Inl e \<Rightarrow> Inl e | Inr w' \<Rightarrow> computeDelta_sums w' x bands)
            in (delta, set_default_prec prevPrec s2)))"

text \<open>The overload that takes the weights as well (lines 64--84).\<close>

definition computeDelta_w ::
  "real list \<Rightarrow> real list \<Rightarrow> Band list \<Rightarrow> mp_prec_t \<Rightarrow> mp_context
     \<Rightarrow> (error + real) \<times> mp_context" where
  "computeDelta_w w x bands prec s =
     (let prevPrec = get_default_prec s;
          s1 = set_default_prec prec s;
          delta = computeDelta_sums w x bands
      in (delta, set_default_prec prevPrec s1))"

section \<open>The response at the reference nodes\<close>

definition computeC_body ::
  "real \<Rightarrow> real list \<Rightarrow> Band list \<Rightarrow> nat \<Rightarrow> real list \<times> real \<times> real
     \<Rightarrow> error + real list \<times> real \<times> real" where
  "computeC_body delta omega bands i v =
     (case v of (C, D, W) \<Rightarrow>
        (case computeIdealResponseAndWeight D W (omega ! i) bands of (D', W') \<Rightarrow>
           (let W'' = (if i mod 2 \<noteq> 0 then - W' else W')
            in case mp_div delta W'' of
                 Inl e \<Rightarrow> Inl e
               | Inr q \<Rightarrow>
                   (case vec_set C i (D' + q) of
                      Inl e \<Rightarrow> Inl e
                    | Inr C' \<Rightarrow> Inr (C', D', W'')))))"

definition computeC ::
  "real list \<Rightarrow> real \<Rightarrow> real list \<Rightarrow> Band list \<Rightarrow> mp_prec_t \<Rightarrow> mp_context
     \<Rightarrow> (error + real list) \<times> mp_context" where
  "computeC C delta omega bands prec s =
     (let prevPrec = get_default_prec s;
          s1 = set_default_prec prec s;
          r = (case for_loop 0 (length omega) (computeC_body delta omega bands) (C, 0, 0) of
                 Inl e \<Rightarrow> Inl e
               | Inr (C', D, W) \<Rightarrow> Inr C')
      in (r, set_default_prec prevPrec s1))"

section \<open>Evaluating the interpolant and its error\<close>

text \<open>
  The loop of \<^verbatim>\<open>computeApprox\<close> returns from inside when the query point is a node;
  otherwise it falls through to \<^verbatim>\<open>Pc = num / denom\<close>.  The function gives the value
  that \<^verbatim>\<open>Pc\<close> holds when \<^verbatim>\<open>computeApprox\<close> returns.
\<close>

function computeApprox_loop ::
  "real \<Rightarrow> real list \<Rightarrow> real list \<Rightarrow> real list \<Rightarrow> nat \<Rightarrow> real \<Rightarrow> real \<Rightarrow> error + real" where
  "computeApprox_loop Pc x C w i num denom =
     (if i < length x
      then (if Pc = x ! i
            then vec_get C i
            else (case vec_get w i of
                    Inl e \<Rightarrow> Inl e
                  | Inr wi \<Rightarrow>
                      (case mp_div wi (Pc - x ! i) of
                         Inl e \<Rightarrow> Inl e
                       | Inr buff \<Rightarrow>
                           (case vec_get C i of
                              Inl e \<Rightarrow> Inl e
                            | Inr ci \<Rightarrow>
                                computeApprox_loop Pc x C w (i + 1)
                                  (fma buff ci num) (denom + buff)))))
      else mp_div num denom)"
  by pat_completeness auto
termination
  by (relation "measure (\<lambda>(Pc, x, C, w, i, num, denom). length x - i)") auto

declare computeApprox_loop.simps [simp del]

definition computeApprox ::
  "real \<Rightarrow> real list \<Rightarrow> real list \<Rightarrow> real list \<Rightarrow> mp_prec_t \<Rightarrow> mp_context
     \<Rightarrow> (error + real) \<times> mp_context" where
  "computeApprox omega x C w prec s =
     (let prevPrec = get_default_prec s;
          s1 = set_default_prec prec s;
          Pc = omega;
          r = computeApprox_loop Pc x C w 0 0 0
      in (r, set_default_prec prevPrec s1))"

text \<open>
  The first loop of \<^verbatim>\<open>computeError\<close>: \<open>Some e\<close> when it returns from inside with
  \<^verbatim>\<open>error = e\<close>, \<open>None\<close> when it runs to its end.
\<close>

function computeError_scan :: "real \<Rightarrow> real \<Rightarrow> real list \<Rightarrow> nat \<Rightarrow> real option" where
  "computeError_scan xVal delta x i =
     (if i < length x
      then (if xVal = x ! i
            then Some (if i mod 2 = 0 then delta else - delta)
            else computeError_scan xVal delta x (i + 1))
      else None)"
  by pat_completeness auto
termination
  by (relation "measure (\<lambda>(xVal, delta, x, i). length x - i)") auto

declare computeError_scan.simps [simp del]

definition computeError ::
  "real \<Rightarrow> real \<Rightarrow> real list \<Rightarrow> real list \<Rightarrow> real list \<Rightarrow> Band list \<Rightarrow> mp_prec_t
     \<Rightarrow> mp_context \<Rightarrow> (error + real) \<times> mp_context" where
  "computeError xVal delta x C w bands prec s =
     (let prevPrec = get_default_prec s;
          s1 = set_default_prec prec s
      in case computeError_scan xVal delta x 0 of
           Some e \<Rightarrow> (Inr e, set_default_prec prevPrec s1)
         | None \<Rightarrow>
             (case computeIdealResponseAndWeight 0 0 xVal bands of (D, W) \<Rightarrow>
                (case computeApprox xVal x C w prec_default_argument s1 of (r, s2) \<Rightarrow>
                   (let r' = (case r of Inl e \<Rightarrow> Inl e | Inr err \<Rightarrow> Inr ((err - D) * W))
                    in (r', set_default_prec prevPrec s2)))))"

section \<open>The formulas of the specification\<close>

text \<open>
  The stride as section 4.2 of the specification words it, \<open>ceil((n - 2) / 15)\<close>.
\<close>

definition step_spec :: "nat \<Rightarrow> nat" where
  "step_spec n = nat \<lceil>(real n - 2) / 15\<rceil>"

text \<open>
  The barycentric weight of node \<open>i\<close> as a single product over the other nodes,
  \<open>1 / \<Prod>\<^bsub>k \<noteq> i\<^esub> 2 (x\<^sub>i - x\<^sub>k)\<close>.
\<close>

definition barycentric_weight :: "real list \<Rightarrow> nat \<Rightarrow> real" where
  "barycentric_weight x i = 1 / (\<Prod>k \<in> {..<length x} - {i}. 2 * (x ! i - x ! k))"

text \<open>
  The ideal amplitude and weight at a coordinate: those of the first band that contains it
  (0 where no band does; the theorems below only use covered coordinates).
\<close>

definition in_band :: "Band \<Rightarrow> real \<Rightarrow> bool" where
  "in_band b v = (start b \<le> v \<and> v \<le> stop b)"

definition ideal_amplitude :: "Band list \<Rightarrow> real \<Rightarrow> real" where
  "ideal_amplitude bands v =
     (case find (\<lambda>b. in_band b v) bands of None \<Rightarrow> 0 | Some b \<Rightarrow> amplitude b (space b) v)"

definition ideal_weight :: "Band list \<Rightarrow> real \<Rightarrow> real" where
  "ideal_weight bands v =
     (case find (\<lambda>b. in_band b v) bands of None \<Rightarrow> 0 | Some b \<Rightarrow> weight b (space b) v)"

definition covered :: "Band list \<Rightarrow> real \<Rightarrow> bool" where
  "covered bands v = (\<exists>b \<in> set bands. in_band b v)"

text \<open>The response sample of section 4.4 at index \<open>i\<close>.\<close>

definition response_sample :: "real \<Rightarrow> Band list \<Rightarrow> real list \<Rightarrow> nat \<Rightarrow> real" where
  "response_sample delta bands omega i =
     ideal_amplitude bands (omega ! i) +
     delta / (if odd i then - ideal_weight bands (omega ! i) else ideal_weight bands (omega ! i))"

text \<open>The sign of section 4.3: \<open>-1\<close> at an even index, \<open>+1\<close> at an odd one.\<close>

definition reference_sign :: "nat \<Rightarrow> real" where
  "reference_sign i = (if even i then - 1 else 1)"

text \<open>
  The indices the innermost loop of \<^verbatim>\<open>barycentricWeights\<close> visits when it starts at \<open>k\<close>
  and advances by \<open>s\<close> below \<open>n\<close>.
\<close>

definition stride_class :: "nat \<Rightarrow> nat \<Rightarrow> nat \<Rightarrow> nat set" where
  "stride_class n s k = {m. k \<le> m \<and> m < n \<and> m mod s = k mod s}"

section \<open>MPFR arithmetic\<close>

text \<open>
  Modelled from the spec: the \<^verbatim>\<open>mpreal\<close> library, a C++ face of MPFR, is not among the
  sources.  An \<^verbatim>\<open>mpreal\<close> is a real number (\<open>Num 0\<close> is the zero of positive sign), the
  zero of negative sign, an infinity or NaN.  Every arithmetic operation returns the exact
  result rounded at the ambient default precision, ``an ambient numeric-precision setting
  (bit width) that every arbitrary-precision operation reads'' (section 3), to the nearest
  number of that many significant bits, ties to the even one (MPFR's default rounding
  mode).  A division by zero gives an infinity and the run goes on; an operation without a
  value gives NaN (``the kernel itself will return \<open>\<plusminus>\<close>infinity/NaN weights'', section 8).
  The exponent of a number is not bounded in the model, so nothing overflows or underflows.
\<close>

datatype mpreal = Num real | NegZero | PInf | NInf | NaN

definition round_to_even :: "real \<Rightarrow> int" where
  "round_to_even r =
     (let f = \<lfloor>r\<rfloor>
      in if r - of_int f < 1 / 2 then f
         else if r - of_int f > 1 / 2 then f + 1
         else if even f then f else f + 1)"

definition mp_round :: "mp_prec_t \<Rightarrow> real \<Rightarrow> real" where
  "mp_round p v =
     (if v = 0 then 0
      else (let ulp = 2 powr of_int (\<lfloor>log 2 \<bar>v\<bar>\<rfloor> + 1 - p)
            in of_int (round_to_even (v / ulp)) * ulp))"

fun is_nan :: "mpreal \<Rightarrow> bool" where
  "is_nan NaN = True"
| "is_nan _ = False"

fun is_inf :: "mpreal \<Rightarrow> bool" where
  "is_inf PInf = True"
| "is_inf NInf = True"
| "is_inf _ = False"

fun is_zero :: "mpreal \<Rightarrow> bool" where
  "is_zero (Num v) = (v = 0)"
| "is_zero NegZero = True"
| "is_zero _ = False"

text \<open>The sign bit and the value of a number that is not NaN.\<close>

fun negative :: "mpreal \<Rightarrow> bool" where
  "negative (Num v) = (v < 0)"
| "negative NegZero = True"
| "negative NInf = True"
| "negative _ = False"

fun value_of :: "mpreal \<Rightarrow> real" where
  "value_of (Num v) = v"
| "value_of _ = 0"

definition signed_zero :: "bool \<Rightarrow> mpreal" where
  "signed_zero s = (if s then NegZero else Num 0)"

definition signed_inf :: "bool \<Rightarrow> mpreal" where
  "signed_inf s = (if s then NInf else PInf)"

fun mp_neg :: "mpreal \<Rightarrow> mpreal" where
  "mp_neg (Num v) = (if v = 0 then NegZero else Num (- v))"
| "mp_neg NegZero = Num 0"
| "mp_neg PInf = NInf"
| "mp_neg NInf = PInf"
| "mp_neg NaN = NaN"

definition mp_add :: "mp_prec_t \<Rightarrow> mpreal \<Rightarrow> mpreal \<Rightarrow> mpreal" where
  "mp_add p a b =
     (if is_nan a \<or> is_nan b then NaN
      else if is_inf a \<and> is_inf b then (if a = b then a else NaN)
      else if is_inf a then a
      else if is_inf b then b
      else if is_zero a \<and> is_zero b then (if a = b then a else Num 0)
      else (let r = value_of a + value_of b
            in if r = 0 then Num 0 else Num (mp_round p r)))"

definition mp_sub :: "mp_prec_t \<Rightarrow> mpreal \<Rightarrow> mpreal \<Rightarrow> mpreal" where
  "mp_sub p a b = mp_add p a (mp_neg b)"

definition mp_mul :: "mp_prec_t \<Rightarrow> mpreal \<Rightarrow> mpreal \<Rightarrow> mpreal" where
  "mp_mul p a b =
     (if is_nan a \<or> is_nan b then NaN
      else if (is_inf a \<and> is_zero b) \<or> (is_zero a \<and> is_inf b) then NaN
      else (let s = (negative a \<noteq> negative b)
            in if is_inf a \<or> is_inf b then signed_inf s
               else if is_zero a \<or> is_zero b then signed_zero s
               else Num (mp_round p (value_of a * value_of b))))"

definition mp_quot :: "mp_prec_t \<Rightarrow> mpreal \<Rightarrow> mpreal \<Rightarrow> mpreal" where
  "mp_quot p a b =
     (if is_nan a \<or> is_nan b then NaN
      else if (is_inf a \<and> is_inf b) \<or> (is_zero a \<and> is_zero b) then NaN
      else (let s = (negative a \<noteq> negative b)
            in if is_inf a then signed_inf s
               else if is_inf b then signed_zero s
               else if is_zero b then signed_inf s
               else if is_zero a then signed_zero s
               else Num (mp_round p (value_of a / value_of b))))"

text \<open>\<^verbatim>\<open>fma(a, b, c)\<close>: the exact \<open>a b + c\<close>, rounded once.\<close>

definition mp_fma :: "mp_prec_t \<Rightarrow> mpreal \<Rightarrow> mpreal \<Rightarrow> mpreal \<Rightarrow> mpreal" where
  "mp_fma p a b c =
     (if is_nan a \<or> is_nan b \<or> is_nan c then NaN
      else if (is_inf a \<and> is_zero b) \<or> (is_zero a \<and> is_inf b) then NaN
      else (let s = (negative a \<noteq> negative b)
            in if is_inf a \<or> is_inf b
               then (if is_inf c \<and> negative c \<noteq> s then NaN else signed_inf s)
               else if is_inf c then c
               else if is_zero a \<or> is_zero b
               then (if is_zero c then (if c = signed_zero s then c else Num 0)
                     else Num (mp_round p (value_of c)))
               else (let r = value_of a * value_of b + value_of c
                     in if r = 0 then Num 0 else Num (mp_round p r))))"

text \<open>\<^verbatim>\<open>v << 1\<close>: the exponent goes up by one, nothing is rounded.\<close>

fun mp_shl1 :: "mpreal \<Rightarrow> mpreal" where
  "mp_shl1 (Num v) = Num (v * 2)"
| "mp_shl1 a = a"

text \<open>
  The comparisons \<^verbatim>\<open><=\<close>, \<^verbatim>\<open>>=\<close> and \<^verbatim>\<open>==\<close>: false when an operand is NaN; the two
  zeros are equal.
\<close>

definition mp_le :: "mpreal \<Rightarrow> mpreal \<Rightarrow> bool" where
  "mp_le a b =
     (\<not> is_nan a \<and> \<not> is_nan b \<and>
      (a = NInf \<or> b = PInf \<or> (\<not> is_inf a \<and> \<not> is_inf b \<and> value_of a \<le> value_of b)))"

definition mp_ge :: "mpreal \<Rightarrow> mpreal \<Rightarrow> bool" where
  "mp_ge a b = mp_le b a"

definition mp_eq :: "mpreal \<Rightarrow> mpreal \<Rightarrow> bool" where
  "mp_eq a b = (mp_le a b \<and> mp_le b a)"

section \<open>The kernel in MPFR arithmetic\<close>

text \<open>
  The same functions, statement for statement, with the operations of the section above in
  place of the exact ones.  Every operation rounds at the default precision in force where
  it runs: the argument \<open>prec\<close> of the entry point, and 165 inside the nested calls.
  No division stops a run, so the only failure left is \<open>OutOfRange\<close>.
\<close>

text \<open>
  Modelled from the spec: \<^verbatim>\<open>Band\<close> again (\<^verbatim>\<open>band.h\<close> is not among the sources), with
  \<^verbatim>\<open>mpreal\<close> bounds and \<^verbatim>\<open>mpreal\<close>-valued amplitude and weight functions.
\<close>

record Band_mp =
  mp_start :: mpreal
  mp_stop :: mpreal
  mp_space :: space_t
  mp_amplitude :: "space_t \<Rightarrow> mpreal \<Rightarrow> mpreal"
  mp_weight :: "space_t \<Rightarrow> mpreal \<Rightarrow> mpreal"

fun computeIdealResponseAndWeight_mp ::
  "mpreal \<Rightarrow> mpreal \<Rightarrow> mpreal \<Rightarrow> Band_mp list \<Rightarrow> mpreal \<times> mpreal" where
  "computeIdealResponseAndWeight_mp D W xVal [] = (D, W)"
| "computeIdealResponseAndWeight_mp D W xVal (it # rest) =
     (if mp_ge xVal (mp_start it) \<and> mp_le xVal (mp_stop it)
      then (mp_amplitude it (mp_space it) xVal, mp_weight it (mp_space it) xVal)
      else computeIdealResponseAndWeight_mp D W xVal rest)"

function weights_k_mp ::
  "mp_prec_t \<Rightarrow> mpreal list \<Rightarrow> nat \<Rightarrow> mpreal \<Rightarrow> nat \<Rightarrow> mpreal \<Rightarrow> mpreal" where
  "weights_k_mp p x i xi k denom =
     (if k < length x
      then weights_k_mp p x i xi (k + step_of (length x))
             (if k \<noteq> i then mp_mul p denom (mp_shl1 (mp_sub p xi (x ! k))) else denom)
      else denom)"
  by pat_completeness auto
termination
  by (relation "measure (\<lambda>(p, x, i, xi, k, denom). length x - k)")
     (auto simp: step_of_def)

declare weights_k_mp.simps [simp del]

function weights_j_mp ::
  "mp_prec_t \<Rightarrow> mpreal list \<Rightarrow> nat \<Rightarrow> mpreal \<Rightarrow> nat \<Rightarrow> mpreal \<Rightarrow> mpreal" where
  "weights_j_mp p x i xi j denom =
     (if j < step_of (length x)
      then weights_j_mp p x i xi (j + 1) (weights_k_mp p x i xi j denom)
      else denom)"
  by pat_completeness auto
termination
  by (relation "measure (\<lambda>(p, x, i, xi, j, denom). step_of (length x) - j)") auto

declare weights_j_mp.simps [simp del]

definition barycentricWeights_body_mp ::
  "mp_prec_t \<Rightarrow> mpreal list \<Rightarrow> nat \<Rightarrow> mpreal list \<Rightarrow> error + mpreal list" where
  "barycentricWeights_body_mp p x i w =
     (let one = Num 1;
          denom = Num 1;
          xi = x ! i;
          denom = weights_j_mp p x i xi 0 denom
      in vec_set w i (mp_quot p one denom))"

definition barycentricWeights_mp ::
  "mpreal list \<Rightarrow> mpreal list \<Rightarrow> mp_prec_t \<Rightarrow> mp_context
     \<Rightarrow> (error + mpreal list) \<times> mp_context" where
  "barycentricWeights_mp w x prec s =
     (let prevPrec = get_default_prec s;
          s1 = set_default_prec prec s;
          r = for_loop 0 (length x) (barycentricWeights_body_mp (get_default_prec s1) x) w
      in (r, set_default_prec prevPrec s1))"

definition computeDelta_body_mp ::
  "mp_prec_t \<Rightarrow> mpreal list \<Rightarrow> mpreal list \<Rightarrow> Band_mp list \<Rightarrow> nat
     \<Rightarrow> mpreal \<times> mpreal \<times> mpreal \<times> mpreal \<Rightarrow> error + mpreal \<times> mpreal \<times> mpreal \<times> mpreal" where
  "computeDelta_body_mp p w x bands i v =
     (case v of (num, denom, D, W) \<Rightarrow>
        (case vec_get x i of
           Inl e \<Rightarrow> Inl e
         | Inr xi \<Rightarrow>
             (case computeIdealResponseAndWeight_mp D W xi bands of (D', W') \<Rightarrow>
                (let buffer = w ! i;
                     num' = mp_fma p buffer D' num;
                     buffer = mp_quot p (w ! i) W';
                     buffer = (if i mod 2 = 0 then mp_neg buffer else buffer)
                 in Inr (num', mp_add p denom buffer, D', W')))))"

definition computeDelta_sums_mp ::
  "mp_prec_t \<Rightarrow> mpreal list \<Rightarrow> mpreal list \<Rightarrow> Band_mp list \<Rightarrow> error + mpreal" where
  "computeDelta_sums_mp p w x bands =
     (case for_loop 0 (length w) (computeDelta_body_mp p w x bands) (Num 0, Num 0, Num 0, Num 0) of
        Inl e \<Rightarrow> Inl e
      | Inr (num, denom, D, W) \<Rightarrow> Inr (mp_quot p num denom))"

definition computeDelta_mp ::
  "mpreal list \<Rightarrow> Band_mp list \<Rightarrow> mp_prec_t \<Rightarrow> mp_context \<Rightarrow> (error + mpreal) \<times> mp_context" where
  "computeDelta_mp x bands prec s =
     (let prevPrec = get_default_prec s;
          s1 = set_default_prec prec s;
          w = replicate (length x) (Num 0)
      in case barycentricWeights_mp w x prec_default_argument s1 of (rw, s2) \<Rightarrow>
           (let delta = (case rw of
                           Inl e \<Rightarrow> Inl e
                         | Inr w' \<Rightarrow> computeDelta_sums_mp (get_default_prec s2) w' x bands)
            in (delta, set_default_prec prevPrec s2)))"

definition computeDelta_w_mp ::
  "mpreal list \<Rightarrow> mpreal list \<Rightarrow> Band_mp list \<Rightarrow> mp_prec_t \<Rightarrow> mp_context
     \<Rightarrow> (error + mpreal) \<times> mp_context" where
  "computeDelta_w_mp w x bands prec s =
     (let prevPrec = get_default_prec s;
          s1 = set_default_prec prec s;
          delta = computeDelta_sums_mp (get_default_prec s1) w x bands
      in (delta, set_default_prec prevPrec s1))"

definition computeC_body_mp ::
  "mp_prec_t \<Rightarrow> mpreal \<Rightarrow> mpreal list \<Rightarrow> Band_mp list \<Rightarrow> nat
     \<Rightarrow> mpreal list \<times> mpreal \<times> mpreal \<Rightarrow> error + mpreal list \<times> mpreal \<times> mpreal" where
  "computeC_body_mp p delta omega bands i v =
     (case v of (C, D, W) \<Rightarrow>
        (case computeIdealResponseAndWeight_mp D W (omega ! i) bands of (D', W') \<Rightarrow>
           (let W'' = (if i mod 2 \<noteq> 0 then mp_neg W' else W')
            in case vec_set C i (mp_add p D' (mp_quot p delta W'')) of
                 Inl e \<Rightarrow> Inl e
               | Inr C' \<Rightarrow> Inr (C', D', W''))))"

definition computeC_mp ::
  "mpreal list \<Rightarrow> mpreal \<Rightarrow> mpreal list \<Rightarrow> Band_mp list \<Rightarrow> mp_prec_t \<Rightarrow> mp_context
     \<Rightarrow> (error + mpreal list) \<times> mp_context" where
  "computeC_mp C delta omega bands prec s =
     (let prevPrec = get_default_prec s;
          s1 = set_default_prec prec s;
          r = (case for_loop 0 (length omega)
                      (computeC_body_mp (get_default_prec s1) delta omega bands)
                      (C, Num 0, Num 0) of
                 Inl e \<Rightarrow> Inl e
               | Inr (C', D, W) \<Rightarrow> Inr C')
      in (r, set_default_prec prevPrec s1))"

function computeApprox_loop_mp ::
  "mp_prec_t \<Rightarrow> mpreal \<Rightarrow> mpreal list \<Rightarrow> mpreal list \<Rightarrow> mpreal list \<Rightarrow> nat
     \<Rightarrow> mpreal \<Rightarrow> mpreal \<Rightarrow> error + mpreal" where
  "computeApprox_loop_mp p Pc x C w i num denom =
     (if i < length x
      then (if mp_eq Pc (x ! i)
            then vec_get C i
            else (case vec_get w i of
                    Inl e \<Rightarrow> Inl e
                  | Inr wi \<Rightarrow>
                      (let buff = mp_quot p wi (mp_sub p Pc (x ! i))
                       in case vec_get C i of
                            Inl e \<Rightarrow> Inl e
                          | Inr ci \<Rightarrow>
                              computeApprox_loop_mp p Pc x C w (i + 1)
                                (mp_fma p buff ci num) (mp_add p denom buff))))
      else Inr (mp_quot p num denom))"
  by pat_completeness auto
termination
  by (relation "measure (\<lambda>(p, Pc, x, C, w, i, num, denom). length x - i)") auto

declare computeApprox_loop_mp.simps [simp del]

definition computeApprox_mp ::
  "mpreal \<Rightarrow> mpreal list \<Rightarrow> mpreal list \<Rightarrow> mpreal list \<Rightarrow> mp_prec_t \<Rightarrow> mp_context
     \<Rightarrow> (error + mpreal) \<times> mp_context" where
  "computeApprox_mp omega x C w prec s =
     (let prevPrec = get_default_prec s;
          s1 = set_default_prec prec s;
          Pc = omega;
          r = computeApprox_loop_mp (get_default_prec s1) Pc x C w 0 (Num 0) (Num 0)
      in (r, set_default_prec prevPrec s1))"

section \<open>The formulas of the specification in MPFR arithmetic\<close>

definition in_band_mp :: "Band_mp \<Rightarrow> mpreal \<Rightarrow> bool" where
  "in_band_mp b v = (mp_le (mp_start b) v \<and> mp_le v (mp_stop b))"

definition ideal_amplitude_mp :: "Band_mp list \<Rightarrow> mpreal \<Rightarrow> mpreal" where
  "ideal_amplitude_mp bands v =
     (case find (\<lambda>b. in_band_mp b v) bands of
        None \<Rightarrow> Num 0
      | Some b \<Rightarrow> mp_amplitude b (mp_space b) v)"

definition ideal_weight_mp :: "Band_mp list \<Rightarrow> mpreal \<Rightarrow> mpreal" where
  "ideal_weight_mp bands v =
     (case find (\<lambda>b. in_band_mp b v) bands of
        None \<Rightarrow> Num 0
      | Some b \<Rightarrow> mp_weight b (mp_space b) v)"

definition covered_mp :: "Band_mp list \<Rightarrow> mpreal \<Rightarrow> bool" where
  "covered_mp bands v = (\<exists>b \<in> set bands. in_band_mp b v)"




text \<open>
  The sums of section 4.5, \<open>num = \<Sum>\<^sub>i (w\<^sub>i / (q - x\<^sub>i)) C\<^sub>i\<close> (fused multiply-add) and
  \<open>denom = \<Sum>\<^sub>i w\<^sub>i / (q - x\<^sub>i)\<close>.
\<close>

definition approx_num ::
  "mp_prec_t \<Rightarrow> mpreal \<Rightarrow> mpreal list \<Rightarrow> mpreal list \<Rightarrow> mpreal list \<Rightarrow> mpreal" where
  "approx_num p q x C w =
     foldl (\<lambda>num i. mp_fma p (mp_quot p (w ! i) (mp_sub p q (x ! i))) (C ! i) num) (Num 0)
       [0..<length x]"

definition approx_denom :: "mp_prec_t \<Rightarrow> mpreal \<Rightarrow> mpreal list \<Rightarrow> mpreal list \<Rightarrow> mpreal" where
  "approx_denom p q x w =
     foldl (\<lambda>denom i. mp_add p denom (mp_quot p (w ! i) (mp_sub p q (x ! i)))) (Num 0)
       [0..<length x]"

text \<open>The response sample of section 4.4 at index \<open>i\<close>.\<close>

definition response_sample_mp ::
  "mp_prec_t \<Rightarrow> mpreal \<Rightarrow> Band_mp list \<Rightarrow> mpreal list \<Rightarrow> nat \<Rightarrow> mpreal" where
  "response_sample_mp p delta bands omega i =
     mp_add p (ideal_amplitude_mp bands (omega ! i))
       (mp_quot p delta
          (if odd i then mp_neg (ideal_weight_mp bands (omega ! i))
           else ideal_weight_mp bands (omega ! i)))"

section \<open>Loop invariants\<close>

lemma step_of_pos: "0 < step_of n"
  by (simp add: step_of_def)

lemma for_loop_invariant:
  assumes "I i a" and "i \<le> n"
    and step: "\<And>k v. i \<le> k \<Longrightarrow> k < n \<Longrightarrow> I k v \<Longrightarrow> \<exists>v'. body k v = Inr v' \<and> I (Suc k) v'"
  shows "\<exists>v'. for_loop i n body a = Inr v' \<and> I n v'"
  using assms
proof (induction "n - i" arbitrary: i a)
  case 0
  then have "i = n" by simp
  with 0 show ?case by (simp add: for_loop.simps)
next
  case (Suc d)
  then have lt: "i < n" by simp
  from Suc.prems(3)[of i a] lt Suc.prems(1)
  obtain v' where b: "body i a = Inr v'" and inv: "I (Suc i) v'" by auto
  have "\<exists>v''. for_loop (Suc i) n body v' = Inr v'' \<and> I n v''"
  proof (rule Suc.hyps(1))
    show "d = n - Suc i" using Suc.hyps(2) by simp
    show "I (Suc i) v'" by (rule inv)
    show "Suc i \<le> n" using lt by simp
    show "\<And>k v. Suc i \<le> k \<Longrightarrow> k < n \<Longrightarrow> I k v \<Longrightarrow> \<exists>v'. body k v = Inr v' \<and> I (Suc k) v'"
      using Suc.prems(3) by simp
  qed
  then show ?case using lt b by (subst for_loop.simps) simp
qed

lemma stride_class_empty: "\<not> k < n \<Longrightarrow> stride_class n s k = {}"
  by (auto simp: stride_class_def)

lemma stride_class_step:
  assumes "k < n" "0 < s"
  shows "stride_class n s k = insert k (stride_class n s (k + s))"
    and "k \<notin> stride_class n s (k + s)"
proof -
  have "m \<ge> k + s" if "k \<le> m" "m mod s = k mod s" "m \<noteq> k" for m
  proof (rule ccontr)
    assume "\<not> m \<ge> k + s"
    then have lt: "m - k < s" and "k < m" using that by auto
    have "(m - k) mod s = 0" using that(1,2)
      by (metis mod_eq_dvd_iff_nat dvd_imp_mod_0)
    then have "m - k = 0" using lt by simp
    with \<open>k < m\<close> show False by simp
  qed
  then show "stride_class n s k = insert k (stride_class n s (k + s))"
    using assms by (auto simp: stride_class_def)
  show "k \<notin> stride_class n s (k + s)" using assms by (simp add: stride_class_def)
qed

lemma finite_stride_class: "finite (stride_class n s k)"
  by (simp add: stride_class_def)

lemma weights_k_prod:
  "weights_k x i xi k denom =
     denom * (\<Prod>m \<in> stride_class (length x) (step_of (length x)) k - {i}. (xi - x ! m) * 2)"
proof (induction x i xi k denom rule: weights_k.induct)
  case (1 x i xi k denom)
  let ?n = "length x" and ?s = "step_of (length x)"
  show ?case
  proof (cases "k < ?n")
    case False
    then show ?thesis by (subst weights_k.simps) (simp add: stride_class_empty)
  next
    case True
    note st = stride_class_step[OF True step_of_pos[of ?n]]
    have fin: "finite (stride_class ?n ?s (k + ?s) - {i})" by (simp add: finite_stride_class)
    show ?thesis
    proof (cases "k = i")
      case True
      have "stride_class ?n ?s k - {i} = stride_class ?n ?s (k + ?s) - {i}"
        using st True by auto
      then show ?thesis using 1[OF \<open>k < ?n\<close>] True \<open>k < ?n\<close> by (subst weights_k.simps) simp
    next
      case False
      have "stride_class ?n ?s k - {i} = insert k (stride_class ?n ?s (k + ?s) - {i})"
        using st False by auto
      moreover have "k \<notin> stride_class ?n ?s (k + ?s) - {i}" using st by simp
      ultimately show ?thesis using 1[OF \<open>k < ?n\<close>] False \<open>k < ?n\<close> fin
        by (subst weights_k.simps) (simp add: algebra_simps)
    qed
  qed
qed

lemma weights_j_prod:
  "j \<le> step_of (length x) \<Longrightarrow> weights_j x i xi j denom =
     denom * (\<Prod>m \<in> {m. m < length x \<and> j \<le> m mod step_of (length x)} - {i}. (xi - x ! m) * 2)"
proof (induction x i xi j denom rule: weights_j.induct)
  case (1 x i xi j denom)
  let ?n = "length x" and ?s = "step_of (length x)"
  let ?f = "\<lambda>m. (xi - x ! m) * 2"
  show ?case
  proof (cases "j < ?s")
    case False
    have "m mod ?s < j" for m
      using False mod_less_divisor[OF step_of_pos[of ?n], of m] by linarith
    then have e: "{m. m < ?n \<and> j \<le> m mod ?s} - {i} = {}" by (auto simp: not_le)
    have "weights_j x i xi j denom = denom" using False by (subst weights_j.simps) simp
    then show ?thesis unfolding e by simp
  next
    case True
    have cls: "stride_class ?n ?s j = {m. m < ?n \<and> m mod ?s = j}"
      using True by (auto simp: stride_class_def)
    have split: "{m. m < ?n \<and> j \<le> m mod ?s} - {i} =
        ({m. m < ?n \<and> m mod ?s = j} - {i}) \<union> ({m. m < ?n \<and> j + 1 \<le> m mod ?s} - {i})"
      by auto
    have disj: "({m. m < ?n \<and> m mod ?s = j} - {i}) \<inter> ({m. m < ?n \<and> j + 1 \<le> m mod ?s} - {i}) = {}"
      by auto
    have "weights_j x i xi j denom = weights_j x i xi (j + 1) (weights_k x i xi j denom)"
      using True by (subst weights_j.simps) simp
    also have "\<dots> = weights_k x i xi j denom * prod ?f ({m. m < ?n \<and> j + 1 \<le> m mod ?s} - {i})"
      using 1 True by simp
    also have "\<dots> = denom * (prod ?f ({m. m < ?n \<and> m mod ?s = j} - {i}) *
         prod ?f ({m. m < ?n \<and> j + 1 \<le> m mod ?s} - {i}))"
      by (simp add: weights_k_prod cls)
    also have "\<dots> = denom * prod ?f ({m. m < ?n \<and> j \<le> m mod ?s} - {i})"
      by (subst split, subst prod.union_disjoint[OF _ _ disj]) simp_all
    finally show ?thesis .
  qed
qed

lemma weights_j_all:
  "weights_j x i xi 0 1 = (\<Prod>m \<in> {..<length x} - {i}. (xi - x ! m) * 2)"
proof -
  have "{m. m < length x \<and> 0 \<le> m mod step_of (length x)} = {..<length x}" by auto
  then show ?thesis using weights_j_prod[of 0 x i xi 1] by simp
qed

section \<open>The stride of the grouped product\<close>

lemma step_of_floor: "2 \<le> n \<Longrightarrow> step_of n = (n - 2) div 15 + 1"
  by (simp add: step_of_def size_sub_def)

lemma ceiling_fifteenth: "nat \<lceil>real m / 15\<rceil> = (m + 14) div 15"
  by linarith

lemma step_spec_div: "2 \<le> n \<Longrightarrow> step_spec n = (n - 2 + 14) div 15"
  using ceiling_fifteenth[of "n - 2"] by (simp add: step_spec_def of_nat_diff)

lemma div15_up: "(m + 14) div 15 = (if 15 dvd m then m div 15 else m div 15 + 1)" for m :: nat
proof -
  have r: "m mod 15 < 15" by simp
  have "(m + 14) div 15 = m div 15 + (m mod 15 + 14) div 15"
    using div_add1_eq[of m 14 15] by simp
  moreover have "(m mod 15 + 14) div 15 = (if m mod 15 = 0 then 0 else 1)"
  proof (cases "m mod 15 = 0")
    case True then show ?thesis by simp
  next
    case False
    then have "m mod 15 + 14 = 15 + (m mod 15 - 1)" by simp
    moreover have "(m mod 15 - 1) div 15 = 0" using r by simp
    ultimately show ?thesis using False by (simp add: div_add_self1)
  qed
  ultimately show ?thesis by (simp add: dvd_eq_mod_eq_0)
qed

text \<open>
  Claim C4, as amended.  For every node set of length \<open>n \<ge> 2\<close> the stride used by the inner
  loop nest of \<^verbatim>\<open>barycentricWeights\<close> is \<open>floor((n - 2) / 15) + 1\<close>, which equals
  \<open>ceil((n - 1) / 15)\<close>; it equals the \<open>ceil((n - 2) / 15)\<close> of the specification exactly
  when 15 does not divide \<open>n - 2\<close>.
\<close>

theorem step_of_value:
  "2 \<le> n \<Longrightarrow>
     step_of n = (n - 2) div 15 + 1 \<and>
     step_of n = nat \<lceil>(real n - 1) / 15\<rceil> \<and>
     (step_of n = step_spec n \<longleftrightarrow> \<not> 15 dvd (n - 2))"
proof -
  assume n: "2 \<le> n"
  have a: "step_of n = (n - 2) div 15 + 1" by (rule step_of_floor[OF n])
  have "n - 1 + 14 = (n - 2) + 15" using n by simp
  then have "(n - 1 + 14) div 15 = ((n - 2) + 15) div 15" by (rule arg_cong)
  also have "\<dots> = (n - 2) div 15 + 1" by simp
  finally have d: "(n - 1 + 14) div 15 = (n - 2) div 15 + 1" .
  have e: "nat \<lceil>(real n - 1) / 15\<rceil> = (n - 1 + 14) div 15"
    using ceiling_fifteenth[of "n - 1"] n by (simp add: of_nat_diff)
  have b: "step_of n = nat \<lceil>(real n - 1) / 15\<rceil>" unfolding a e d ..
  have c: "(step_of n = step_spec n) = (\<not> 15 dvd (n - 2))"
    unfolding a step_spec_div[OF n] div15_up by simp
  show ?thesis using a b c by blast
qed

theorem step_of_value_witness:
  "step_of 17 = 2 \<and> step_of 17 = nat \<lceil>(real 17 - 1) / 15\<rceil> \<and> step_of 17 \<noteq> step_spec 17
   \<and> step_of 18 = step_spec 18"
  using step_of_value[of 17] step_of_value[of 18] by simp

text \<open>
  Claim C4 as stated fails for two nodes: the code's stride is 1, while
  \<open>ceil((2 - 2) / 15) = 0\<close>.
\<close>

theorem step_of_counterexample: "step_of 2 = 1 \<and> step_spec 2 = 0 \<and> step_of 2 \<noteq> step_spec 2"
  by (simp add: step_of_def step_spec_def size_sub_def)

section \<open>The lookup outside every band\<close>

text \<open>
  Claim C10.  When the query coordinate lies outside every band (for every band,
  \<open>xVal < start\<close> or \<open>xVal > stop\<close>), \<^verbatim>\<open>computeIdealResponseAndWeight\<close> assigns to
  neither output parameter: \<open>D\<close> and \<open>W\<close> leave with the values they entered with.
\<close>

theorem lookup_outside_every_band:
  "\<forall>b \<in> set bands. xVal < start b \<or> xVal > stop b \<Longrightarrow>
     computeIdealResponseAndWeight D W xVal bands = (D, W)"
  by (induction bands) auto

theorem lookup_outside_every_band_witness:
  "computeIdealResponseAndWeight 5 7 2
     [\<lparr>start = 0, stop = 1, space = FREQ, amplitude = (\<lambda>_ _. 1), weight = (\<lambda>_ _. 1)\<rparr>] = (5, 7)"
  using lookup_outside_every_band
    [of "[\<lparr>start = 0, stop = 1, space = FREQ, amplitude = (\<lambda>_ _. 1), weight = (\<lambda>_ _. 1)\<rparr>]" 2 5 7]
  by simp

section \<open>The error at a reference node\<close>

lemma computeError_scan_hit:
  assumes "i < length x" and "\<forall>k<i. x ! k \<noteq> x ! i" and "j \<le> i"
  shows "computeError_scan (x ! i) delta x j = Some (if i mod 2 = 0 then delta else - delta)"
  using assms(3)
proof (induction "i - j" arbitrary: j)
  case 0
  then have "j = i" by simp
  then show ?case using assms(1) by (subst computeError_scan.simps) simp
next
  case (Suc d)
  then have "j < i" by simp
  then have "x ! i \<noteq> x ! j" using assms(2) by metis
  moreover have "computeError_scan (x ! i) delta x (j + 1) = Some (if i mod 2 = 0 then delta else - delta)"
    using Suc \<open>j < i\<close> by simp
  ultimately show ?case using \<open>j < i\<close> assms(1) by (subst computeError_scan.simps) simp
qed

lemma distinct_before: "distinct x \<Longrightarrow> i < length x \<Longrightarrow> \<forall>k<i. x ! k \<noteq> x ! i"
  by (auto simp: nth_eq_iff_index_eq)

text \<open>
  Claim C2, as amended.  For pairwise-distinct nodes and every index \<open>i\<close>,
  \<^verbatim>\<open>computeError\<close> at a query coordinate equal to \<open>x\<^sub>i\<close> returns \<open>+delta\<close> when \<open>i\<close>
  is even and \<open>-delta\<close> when \<open>i\<close> is odd (zero-based): the signs are the other way round
  from the specification's sentence.
\<close>

theorem computeError_at_node:
  "distinct x \<Longrightarrow> i < length x \<Longrightarrow>
     fst (computeError (x ! i) delta x C w bands prec s) =
       Inr (if even i then delta else - delta)"
  using computeError_scan_hit[OF _ distinct_before, of i x 0 delta]
  by (simp add: computeError_def even_iff_mod_2_eq_zero)

theorem computeError_at_node_witness:
  "fst (computeError 3 5 [2, 3] [0, 0] [0, 0] [] 165 \<lparr>default_prec = 53\<rparr>) = Inr (- 5)"
  using computeError_at_node[of "[2, 3]" 1 5 "[0, 0]" "[0, 0]" "[]" 165 "\<lparr>default_prec = 53\<rparr>"]
  by simp

text \<open>
  Claim C2 as stated fails on the nodes \<open>[0, 1]\<close> with \<open>delta = 1\<close>: at node 0 (even
  index) the code returns \<open>+1\<close>, not \<open>-1\<close>, and at node 1 (odd index) it returns
  \<open>-1\<close>, not \<open>+1\<close>.
\<close>

theorem computeError_at_node_counterexample:
  "fst (computeError 0 1 [0, 1] [0, 0] [0, 0] [] 165 \<lparr>default_prec = 53\<rparr>) = Inr 1 \<and>
   fst (computeError 0 1 [0, 1] [0, 0] [0, 0] [] 165 \<lparr>default_prec = 53\<rparr>) \<noteq> Inr (- 1) \<and>
   fst (computeError 1 1 [0, 1] [0, 0] [0, 0] [] 165 \<lparr>default_prec = 53\<rparr>) = Inr (- 1) \<and>
   fst (computeError 1 1 [0, 1] [0, 0] [0, 0] [] 165 \<lparr>default_prec = 53\<rparr>) \<noteq> Inr 1"
  by (simp add: computeError_def computeError_scan.simps)

section \<open>The precision context\<close>

text \<open>
  Claim C9.  Every arbitrary-precision entry point (\<^verbatim>\<open>barycentricWeights\<close>, both
  overloads of \<^verbatim>\<open>computeDelta\<close>, \<^verbatim>\<open>computeC\<close>, \<^verbatim>\<open>computeApprox\<close>,
  \<^verbatim>\<open>computeError\<close>), for every precision argument and all inputs, leaves the ambient
  default precision as it found it, on every exit path: the early returns at a node, the
  nested calls that run at the default argument 165, and the runs that divide by zero.
\<close>

theorem precision_restored:
  "snd (barycentricWeights w x prec s) = s \<and>
   snd (computeDelta x bands prec s) = s \<and>
   snd (computeDelta_w w x bands prec s) = s \<and>
   snd (computeC C delta x bands prec s) = s \<and>
   snd (computeApprox xVal x C w prec s) = s \<and>
   snd (computeError xVal delta x C w bands prec s) = s"
  by (simp add: barycentricWeights_def computeDelta_def computeDelta_w_def computeC_def
      computeApprox_def computeError_def get_default_prec_def set_default_prec_def Let_def
      split: option.split prod.split)

section \<open>The barycentric weights in closed form\<close>

lemma weights_j_weight:
  "weights_j x i (x ! i) 0 1 = (\<Prod>k \<in> {..<length x} - {i}. 2 * (x ! i - x ! k))"
  by (simp add: weights_j_all mult.commute)

lemma node_product_nonzero:
  fixes x :: "real list"
  assumes "distinct x" and "i < length x"
  shows "(\<Prod>k \<in> {..<length x} - {i}. 2 * (x ! i - x ! k)) \<noteq> 0"
proof -
  have "2 * (x ! i - x ! k) \<noteq> 0" if "k \<in> {..<length x} - {i}" for k
    using that assms by (auto simp: nth_eq_iff_index_eq)
  moreover have "finite ({..<length x} - {i})" by simp
  ultimately show ?thesis using prod_zero_iff[of "{..<length x} - {i}" "\<lambda>k. 2 * (x ! i - x ! k)"]
    by blast
qed

lemma barycentric_weight_nonzero:
  "distinct x \<Longrightarrow> i < length x \<Longrightarrow> barycentric_weight x i \<noteq> 0"
  using node_product_nonzero[of x i] by (simp add: barycentric_weight_def)

lemma barycentricWeights_body_ok:
  assumes "distinct x" and "i < length x" and "i < length w"
  shows "barycentricWeights_body x i w = Inr (w[i := barycentric_weight x i])"
  using node_product_nonzero[OF assms(1,2)] assms(3)
  by (simp add: barycentricWeights_body_def weights_j_weight mp_div_def vec_set_def
      barycentric_weight_def)

lemma barycentricWeights_loop:
  assumes "distinct x" and "length x \<le> length w"
  shows "\<exists>w'. for_loop 0 (length x) (barycentricWeights_body x) w = Inr w' \<and>
           length w' = length w \<and>
           (\<forall>i<length x. w' ! i = barycentric_weight x i) \<and>
           (\<forall>i. length x \<le> i \<longrightarrow> w' ! i = w ! i)"
proof -
  let ?I = "\<lambda>k v. length v = length w \<and> (\<forall>i<k. v ! i = barycentric_weight x i) \<and>
                (\<forall>i. k \<le> i \<longrightarrow> v ! i = w ! i)"
  have "\<exists>w'. for_loop 0 (length x) (barycentricWeights_body x) w = Inr w' \<and> ?I (length x) w'"
  proof (rule for_loop_invariant[where I = ?I])
    show "?I 0 w" by simp
    show "0 \<le> length x" by simp
  next
    fix k v
    assume k: "0 \<le> k" "k < length x" and inv: "?I k v"
    then have "k < length v" using assms(2) by simp
    then have "barycentricWeights_body x k v = Inr (v[k := barycentric_weight x k])"
      using barycentricWeights_body_ok[OF assms(1) k(2)] by simp
    moreover have "?I (Suc k) (v[k := barycentric_weight x k])"
      using inv \<open>k < length v\<close> by (auto simp: nth_list_update less_Suc_eq)
    ultimately show "\<exists>v'. barycentricWeights_body x k v = Inr v' \<and> ?I (Suc k) v'" by blast
  qed
  then show ?thesis by blast
qed

lemma fst_barycentricWeights:
  "fst (barycentricWeights w x prec s) = for_loop 0 (length x) (barycentricWeights_body x) w"
  by (simp add: barycentricWeights_def Let_def)

text \<open>
  Claim C3.  For pairwise-distinct nodes \<open>x\<close> of length \<open>n \<ge> 2\<close> (and an output vector with
  room for them), \<^verbatim>\<open>barycentricWeights\<close> returns weights with
  \<open>w\<^sub>i = 1 / \<Prod>\<^bsub>k \<noteq> i\<^esub> 2 (x\<^sub>i - x\<^sub>k)\<close> for every index \<open>i\<close>: the grouped
  accumulation of the inner loop nest equals the straight product, every index \<open>k \<noteq> i\<close>
  being multiplied in exactly once, and no weight is zero.
\<close>

theorem barycentricWeights_product:
  assumes "2 \<le> length x" and "distinct x" and "length x \<le> length w"
  shows "\<exists>w'. fst (barycentricWeights w x prec s) = Inr w' \<and> length w' = length w \<and>
           (\<forall>i<length x.
              weights_j x i (x ! i) 0 1 = (\<Prod>k \<in> {..<length x} - {i}. 2 * (x ! i - x ! k)) \<and>
              w' ! i = 1 / (\<Prod>k \<in> {..<length x} - {i}. 2 * (x ! i - x ! k)) \<and>
              w' ! i \<noteq> 0)"
proof -
  obtain w' where w': "for_loop 0 (length x) (barycentricWeights_body x) w = Inr w'"
      "length w' = length w" "\<forall>i<length x. w' ! i = barycentric_weight x i"
    using barycentricWeights_loop[OF assms(2,3)] by blast
  have "weights_j x i (x ! i) 0 1 = (\<Prod>k \<in> {..<length x} - {i}. 2 * (x ! i - x ! k)) \<and>
        w' ! i = 1 / (\<Prod>k \<in> {..<length x} - {i}. 2 * (x ! i - x ! k)) \<and> w' ! i \<noteq> 0"
    if "i < length x" for i
  proof (intro conjI)
    show "weights_j x i (x ! i) 0 1 = (\<Prod>k \<in> {..<length x} - {i}. 2 * (x ! i - x ! k))"
      by (rule weights_j_weight)
    show "w' ! i = 1 / (\<Prod>k \<in> {..<length x} - {i}. 2 * (x ! i - x ! k))"
      using w'(3) that unfolding barycentric_weight_def by blast
    show "w' ! i \<noteq> 0"
      using w'(3) that barycentric_weight_nonzero[OF assms(2) that] by metis
  qed
  moreover have "fst (barycentricWeights w x prec s) = Inr w'"
    using w'(1) by (simp only: fst_barycentricWeights)
  ultimately show ?thesis using w'(2) by blast
qed

lemma prod_others_as_list:
  "(\<Prod>k \<in> {..<n} - {i}. f k) = prod_list (map f (filter (\<lambda>k. k \<noteq> i) [0..<n]))"
proof -
  have "set (filter (\<lambda>k. k \<noteq> i) [0..<n]) = {..<n} - {i}" by auto
  moreover have "distinct (filter (\<lambda>k. k \<noteq> i) [0..<n])" by simp
  ultimately show ?thesis using prod.distinct_set_conv_list[of "filter (\<lambda>k. k \<noteq> i) [0..<n]" f]
    by simp
qed

lemma sum_below_as_list: "(\<Sum>i<n. f i) = sum_list (map f [0..<n])"
  using sum.distinct_set_conv_list[of "[0..<n]" f] by (simp add: lessThan_atLeast0)

theorem barycentricWeights_product_witness:
  "\<exists>w'. fst (barycentricWeights [0, 0] [1, 3] 165 \<lparr>default_prec = 53\<rparr>) = Inr w' \<and>
      length w' = 2 \<and> w' ! 0 = - 1 / 4 \<and> w' ! 1 = 1 / 4"
proof -
  have "2 \<le> length [1, 3 :: real]" "distinct [1, 3 :: real]"
      "length [1, 3 :: real] \<le> length [0, 0 :: real]" by simp_all
  from barycentricWeights_product[OF this, of 165 "\<lparr>default_prec = 53\<rparr>"]
  obtain w' where w': "fst (barycentricWeights [0, 0] [1, 3] 165 \<lparr>default_prec = 53\<rparr>) = Inr w'"
      "length w' = length [0, 0 :: real]"
      "\<forall>i<length [1, 3 :: real].
         w' ! i = 1 / (\<Prod>k \<in> {..<length [1, 3 :: real]} - {i}. 2 * ([1, 3] ! i - [1, 3] ! k))"
    by blast
  have "w' ! 0 = - 1 / 4" using w'(3)[rule_format, of 0] by (simp add: prod_others_as_list)
  moreover have "w' ! 1 = 1 / 4" using w'(3)[rule_format, of 1] by (simp add: prod_others_as_list)
  ultimately show ?thesis using w'(1,2) by simp
qed

section \<open>Scaling the nodes\<close>

lemma barycentric_weight_scale:
  assumes "i < length x"
  shows "barycentric_weight (map ((*) c) x) i = barycentric_weight x i / c ^ (length x - 1)"
proof -
  let ?S = "{..<length x} - {i}"
  have card: "card ?S = length x - 1" using assms by simp
  have "(\<Prod>k \<in> ?S. 2 * (map ((*) c) x ! i - map ((*) c) x ! k)) =
        (\<Prod>k \<in> ?S. c * (2 * (x ! i - x ! k)))"
    using assms by (intro prod.cong) (auto simp: algebra_simps)
  also have "\<dots> = (\<Prod>k \<in> ?S. c) * (\<Prod>k \<in> ?S. 2 * (x ! i - x ! k))"
    by (rule prod.distrib)
  also have "(\<Prod>k \<in> ?S. c) = c ^ (length x - 1)"
    using card by (simp only: prod_constant)
  finally show ?thesis by (simp add: barycentric_weight_def)
qed

lemma distinct_scaled: "distinct x \<Longrightarrow> c \<noteq> 0 \<Longrightarrow> distinct (map ((*) c) x)" for c :: real
  by (simp add: distinct_map inj_on_def)

text \<open>
  Claim C8.  For pairwise-distinct nodes \<open>x\<close> of length \<open>n \<ge> 2\<close> and every constant
  \<open>c \<noteq> 0\<close>, each weight that \<^verbatim>\<open>barycentricWeights\<close> returns for the scaled nodes
  \<open>c x\<close> is the corresponding weight for \<open>x\<close> divided by \<open>c\<^bsup>n - 1\<^esup>\<close>.
\<close>

theorem barycentricWeights_scaling:
  assumes "2 \<le> length x" and "distinct x" and "c \<noteq> 0" and "length x \<le> length w"
  shows "\<exists>w1 wc. fst (barycentricWeights w x prec s) = Inr w1 \<and>
           fst (barycentricWeights w (map ((*) c) x) prec s) = Inr wc \<and>
           (\<forall>i<length x. wc ! i = w1 ! i / c ^ (length x - 1))"
proof -
  obtain w1 where w1: "for_loop 0 (length x) (barycentricWeights_body x) w = Inr w1"
      "\<forall>i<length x. w1 ! i = barycentric_weight x i"
    using barycentricWeights_loop[OF assms(2,4)] by blast
  have "length (map ((*) c) x) \<le> length w" using assms(4) by simp
  from barycentricWeights_loop[OF distinct_scaled[OF assms(2,3)] this]
  obtain wc where wc: "for_loop 0 (length x) (barycentricWeights_body (map ((*) c) x)) w = Inr wc"
      "\<forall>i<length x. wc ! i = barycentric_weight (map ((*) c) x) i"
    by auto
  have "wc ! i = w1 ! i / c ^ (length x - 1)" if "i < length x" for i
    using w1(2) wc(2) that barycentric_weight_scale[OF that, of c] by simp
  moreover have "fst (barycentricWeights w x prec s) = Inr w1"
    using w1(1) by (simp only: fst_barycentricWeights)
  moreover have "fst (barycentricWeights w (map ((*) c) x) prec s) = Inr wc"
    using wc(1) by (simp only: fst_barycentricWeights length_map)
  ultimately show ?thesis by blast
qed

theorem barycentricWeights_scaling_witness:
  "\<exists>w1 wc. fst (barycentricWeights [0, 0, 0] [0, 1, 3] 165 \<lparr>default_prec = 53\<rparr>) = Inr w1 \<and>
     fst (barycentricWeights [0, 0, 0] [0, 2, 6] 165 \<lparr>default_prec = 53\<rparr>) = Inr wc \<and>
     wc ! 0 = w1 ! 0 / 4 \<and> wc ! 1 = w1 ! 1 / 4 \<and> wc ! 2 = w1 ! 2 / 4"
proof -
  have "2 \<le> length [0, 1, 3 :: real]" "distinct [0, 1, 3 :: real]" "(2 :: real) \<noteq> 0"
      "length [0, 1, 3 :: real] \<le> length [0, 0, 0 :: real]" by simp_all
  from barycentricWeights_scaling[OF this, of 165 "\<lparr>default_prec = 53\<rparr>"]
  obtain w1 wc where h: "fst (barycentricWeights [0, 0, 0] [0, 1, 3] 165 \<lparr>default_prec = 53\<rparr>) = Inr w1"
      "fst (barycentricWeights [0, 0, 0] (map ((*) 2) [0, 1, 3]) 165 \<lparr>default_prec = 53\<rparr>) = Inr wc"
      "\<forall>i<length [0, 1, 3 :: real]. wc ! i = w1 ! i / 2 ^ (length [0, 1, 3 :: real] - 1)"
    by blast
  have "wc ! 0 = w1 ! 0 / 4" using h(3)[rule_format, of 0] by simp
  moreover have "wc ! 1 = w1 ! 1 / 4" using h(3)[rule_format, of 1] by simp
  moreover have "wc ! 2 = w1 ! 2 / 4" using h(3)[rule_format, of 2] by simp
  ultimately show ?thesis using h(1,2) by simp
qed

section \<open>The lookup inside a band\<close>

lemma lookup_covered:
  "covered bands v \<Longrightarrow>
     computeIdealResponseAndWeight D W v bands = (ideal_amplitude bands v, ideal_weight bands v)"
  by (induction bands)
     (auto simp: covered_def in_band_def ideal_amplitude_def ideal_weight_def)

section \<open>The response samples\<close>

lemma computeC_body_ok:
  assumes "covered bands (omega ! i)" and "ideal_weight bands (omega ! i) \<noteq> 0" and "i < length C"
  shows "\<exists>W'. computeC_body delta omega bands i (C, D, W) =
           Inr (C[i := response_sample delta bands omega i], ideal_amplitude bands (omega ! i), W')"
  using assms
  by (simp add: computeC_body_def lookup_covered mp_div_def vec_set_def response_sample_def
      odd_iff_mod_2_eq_one Let_def)

lemma computeC_loop:
  assumes cov: "\<forall>i<length omega. covered bands (omega ! i)"
    and nz: "\<forall>i<length omega. ideal_weight bands (omega ! i) \<noteq> 0"
    and len: "length omega \<le> length C"
  shows "\<exists>C' D W. for_loop 0 (length omega) (computeC_body delta omega bands) (C, 0, 0) = Inr (C', D, W) \<and>
           length C' = length C \<and>
           (\<forall>i<length omega. C' ! i = response_sample delta bands omega i)"
proof -
  let ?I = "\<lambda>k v. case v of (C', D, W) \<Rightarrow> length C' = length C \<and>
                (\<forall>i<k. C' ! i = response_sample delta bands omega i)"
  have "\<exists>v'. for_loop 0 (length omega) (computeC_body delta omega bands) (C, 0, 0) = Inr v' \<and>
          ?I (length omega) v'"
  proof (rule for_loop_invariant[where I = ?I])
    show "?I 0 (C, 0, 0)" by simp
    show "0 \<le> length omega" by simp
  next
    fix k and v :: "real list \<times> real \<times> real"
    assume k: "0 \<le> k" "k < length omega" and inv: "?I k v"
    obtain C' D W where v: "v = (C', D, W)" by (cases v) auto
    have kC: "k < length C'" using inv v k(2) len by simp
    from computeC_body_ok[OF cov[rule_format, OF k(2)] nz[rule_format, OF k(2)] kC, where delta = delta and D = D and W = W]
    obtain W' where b: "computeC_body delta omega bands k v =
        Inr (C'[k := response_sample delta bands omega k], ideal_amplitude bands (omega ! k), W')"
      using v by auto
    moreover have "?I (Suc k) (C'[k := response_sample delta bands omega k],
        ideal_amplitude bands (omega ! k), W')"
      using inv v kC by (auto simp: nth_list_update less_Suc_eq)
    ultimately show "\<exists>v'. computeC_body delta omega bands k v = Inr v' \<and> ?I (Suc k) v'" by blast
  qed
  then show ?thesis by auto
qed

text \<open>
  In exact arithmetic, with nonzero weights at the nodes, \<^verbatim>\<open>computeC\<close> produces
  \<open>C\<^sub>i = D\<^sub>i + delta / W\<^sub>i'\<close>, where \<open>W\<^sub>i'\<close> is \<open>W\<^sub>i\<close> negated exactly at the odd indices.
\<close>

lemma computeC_exact:
  assumes "\<forall>i<length omega. covered bands (omega ! i)"
    and "\<forall>i<length omega. ideal_weight bands (omega ! i) \<noteq> 0"
    and "length omega \<le> length C"
  shows "\<exists>C'. fst (computeC C delta omega bands prec s) = Inr C' \<and> length C' = length C \<and>
           (\<forall>i<length omega.
              C' ! i = ideal_amplitude bands (omega ! i) +
                delta / (if odd i then - ideal_weight bands (omega ! i)
                         else ideal_weight bands (omega ! i)))"
proof -
  obtain C' D W where
    l: "for_loop 0 (length omega) (computeC_body delta omega bands) (C, 0, 0) = Inr (C', D, W)"
    and p: "length C' = length C" "\<forall>i<length omega. C' ! i = response_sample delta bands omega i"
    using computeC_loop[OF assms] by blast
  have "fst (computeC C delta omega bands prec s) = Inr C'"
    using l by (simp add: computeC_def Let_def)
  then show ?thesis using p unfolding response_sample_def by blast
qed

section \<open>The reference error in closed form\<close>

lemma computeDelta_body_ok:
  assumes "i < length x" and "covered bands (x ! i)" and "ideal_weight bands (x ! i) \<noteq> 0"
  shows "computeDelta_body w x bands i (num, denom, D, W) =
           Inr (num + w ! i * ideal_amplitude bands (x ! i),
                denom + reference_sign i * (w ! i / ideal_weight bands (x ! i)),
                ideal_amplitude bands (x ! i), ideal_weight bands (x ! i))"
  using assms
  by (simp add: computeDelta_body_def vec_get_def lookup_covered mp_div_def fma_def
      reference_sign_def even_iff_mod_2_eq_zero Let_def)

lemma computeDelta_loop:
  assumes len: "length w \<le> length x"
    and cov: "\<forall>i<length w. covered bands (x ! i)"
    and nz: "\<forall>i<length w. ideal_weight bands (x ! i) \<noteq> 0"
  shows "\<exists>D W. for_loop 0 (length w) (computeDelta_body w x bands) (0, 0, 0, 0) =
           Inr (\<Sum>i<length w. w ! i * ideal_amplitude bands (x ! i),
                \<Sum>i<length w. reference_sign i * (w ! i / ideal_weight bands (x ! i)), D, W)"
proof -
  let ?num = "\<lambda>k. \<Sum>i<k. w ! i * ideal_amplitude bands (x ! i)"
  let ?den = "\<lambda>k. \<Sum>i<k. reference_sign i * (w ! i / ideal_weight bands (x ! i))"
  let ?I = "\<lambda>k v. case v of (num, denom, D, W) \<Rightarrow> num = ?num k \<and> denom = ?den k"
  have "\<exists>v'. for_loop 0 (length w) (computeDelta_body w x bands) (0, 0, 0, 0) = Inr v' \<and>
          ?I (length w) v'"
  proof (rule for_loop_invariant[where I = ?I])
    show "?I 0 (0, 0, 0, 0)" by simp
    show "0 \<le> length w" by simp
  next
    fix k and v :: "real \<times> real \<times> real \<times> real"
    assume k: "0 \<le> k" "k < length w" and inv: "?I k v"
    obtain num denom D W where v: "v = (num, denom, D, W)" by (cases v) auto
    have kx: "k < length x" using k(2) len by simp
    have "computeDelta_body w x bands k v =
        Inr (num + w ! k * ideal_amplitude bands (x ! k),
             denom + reference_sign k * (w ! k / ideal_weight bands (x ! k)),
             ideal_amplitude bands (x ! k), ideal_weight bands (x ! k))"
      unfolding v by (rule computeDelta_body_ok[OF kx cov[rule_format, OF k(2)] nz[rule_format, OF k(2)]])
    moreover have "?I (Suc k) (num + w ! k * ideal_amplitude bands (x ! k),
             denom + reference_sign k * (w ! k / ideal_weight bands (x ! k)),
             ideal_amplitude bands (x ! k), ideal_weight bands (x ! k))"
      using inv v by simp
    ultimately show "\<exists>v'. computeDelta_body w x bands k v = Inr v' \<and> ?I (Suc k) v'" by blast
  qed
  then show ?thesis by auto
qed

lemma computeDelta_sums_formula:
  assumes "length w \<le> length x"
    and "\<forall>i<length w. covered bands (x ! i)"
    and "\<forall>i<length w. ideal_weight bands (x ! i) \<noteq> 0"
  shows "computeDelta_sums w x bands =
           mp_div (\<Sum>i<length w. w ! i * ideal_amplitude bands (x ! i))
                  (\<Sum>i<length w. reference_sign i * (w ! i / ideal_weight bands (x ! i)))"
proof -
  obtain D W where "for_loop 0 (length w) (computeDelta_body w x bands) (0, 0, 0, 0) =
           Inr (\<Sum>i<length w. w ! i * ideal_amplitude bands (x ! i),
                \<Sum>i<length w. reference_sign i * (w ! i / ideal_weight bands (x ! i)), D, W)"
    using computeDelta_loop[OF assms] by blast
  then show ?thesis by (simp add: computeDelta_sums_def)
qed

lemma barycentricWeights_fresh:
  assumes "distinct x"
  shows "fst (barycentricWeights (replicate (length x) 0) x prec s) =
           Inr (map (barycentric_weight x) [0..<length x])"
proof -
  have "length x \<le> length (replicate (length x) (0 :: real))" by simp
  from barycentricWeights_loop[OF assms this]
  obtain w' where w': "for_loop 0 (length x) (barycentricWeights_body x) (replicate (length x) 0) = Inr w'"
    "length w' = length x" "\<forall>i<length x. w' ! i = barycentric_weight x i"
    by auto
  have "w' = map (barycentric_weight x) [0..<length x]"
    using w'(2,3) by (intro nth_equalityI) simp_all
  then show ?thesis using w'(1) by (simp only: fst_barycentricWeights)
qed

lemma computeDelta_unfold:
  "fst (computeDelta x bands prec s) =
     (case fst (barycentricWeights (replicate (length x) 0) x prec_default_argument
                  (set_default_prec prec s)) of
        Inl e \<Rightarrow> Inl e
      | Inr w \<Rightarrow> computeDelta_sums w x bands)"
  by (simp add: computeDelta_def Let_def split: prod.split)

lemma fst_computeDelta_w: "fst (computeDelta_w w x bands prec s) = computeDelta_sums w x bands"
  by (simp add: computeDelta_w_def Let_def)

text \<open>
  In exact arithmetic, for distinct nodes and nonzero weights \<open>W\<^sub>i\<close>, both overloads of
  \<^verbatim>\<open>computeDelta\<close> return the quotient of \<open>\<Sum>\<^sub>i w\<^sub>i D\<^sub>i\<close> by \<open>\<Sum>\<^sub>i sign\<^sub>i (w\<^sub>i / W\<^sub>i)\<close>, with
  \<open>w\<close> the vector that \<^verbatim>\<open>barycentricWeights\<close> returns.
\<close>

lemma computeDelta_exact:
  assumes "2 \<le> length x"
    and "\<forall>i<length x. covered bands (x ! i)"
    and "distinct x"
    and "\<forall>i<length x. ideal_weight bands (x ! i) \<noteq> 0"
  shows "\<exists>w. fst (barycentricWeights (replicate (length x) 0) x prec s) = Inr w \<and>
           length w = length x \<and>
           (\<forall>i<length x. w ! i = barycentric_weight x i) \<and>
           fst (computeDelta x bands prec s) =
             mp_div (\<Sum>i<length x. w ! i * ideal_amplitude bands (x ! i))
                    (\<Sum>i<length x. reference_sign i * (w ! i / ideal_weight bands (x ! i))) \<and>
           fst (computeDelta_w w x bands prec s) =
             mp_div (\<Sum>i<length x. w ! i * ideal_amplitude bands (x ! i))
                    (\<Sum>i<length x. reference_sign i * (w ! i / ideal_weight bands (x ! i)))"
proof -
  let ?w = "map (barycentric_weight x) [0..<length x]"
  have len: "length ?w = length x" by simp
  have sums: "computeDelta_sums ?w x bands =
      mp_div (\<Sum>i<length x. ?w ! i * ideal_amplitude bands (x ! i))
             (\<Sum>i<length x. reference_sign i * (?w ! i / ideal_weight bands (x ! i)))"
    using computeDelta_sums_formula[of ?w x bands] assms(2,4) by (simp only: len)
  have "fst (computeDelta x bands prec s) = computeDelta_sums ?w x bands"
    by (simp add: computeDelta_unfold barycentricWeights_fresh[OF assms(3)])
  moreover have "fst (computeDelta_w ?w x bands prec s) = computeDelta_sums ?w x bands"
    by (rule fst_computeDelta_w)
  moreover have "\<forall>i<length x. ?w ! i = barycentric_weight x i" by simp
  ultimately show ?thesis
    using barycentricWeights_fresh[OF assms(3), of prec s] len sums by (intro exI[of _ ?w]) simp
qed

section \<open>The interpolant\<close>

lemma computeApprox_loop_hit:
  assumes "i < length x" and "\<forall>k<i. x ! k \<noteq> x ! i"
    and "length C = length x" and "length w = length x" and "j \<le> i"
  shows "computeApprox_loop (x ! i) x C w j num denom = Inr (C ! i)"
  using assms(5)
proof (induction "i - j" arbitrary: j num denom)
  case 0
  then have "j = i" by simp
  then show ?case using assms(1,3) by (subst computeApprox_loop.simps) (simp add: vec_get_def)
next
  case (Suc d)
  then have lt: "j < i" by simp
  then have ne: "x ! i \<noteq> x ! j" using assms(2) by metis
  have step: "computeApprox_loop (x ! i) x C w (Suc j) num' denom' = Inr (C ! i)" for num' denom'
    using Suc lt by simp
  show ?case using lt assms(1,3,4) ne
    by (subst computeApprox_loop.simps) (simp add: vec_get_def mp_div_def step)
qed

lemma computeApprox_loop_miss:
  assumes "q \<notin> set x" and "length C = length x" and "length w = length x" and "j \<le> length x"
  shows "computeApprox_loop q x C w j num denom =
           mp_div (num + (\<Sum>k = j..<length x. w ! k / (q - x ! k) * C ! k))
                  (denom + (\<Sum>k = j..<length x. w ! k / (q - x ! k)))"
  using assms(4)
proof (induction "length x - j" arbitrary: j num denom)
  case 0
  then have "j = length x" by simp
  then show ?case by (subst computeApprox_loop.simps) simp
next
  case (Suc d)
  then have lt: "j < length x" by simp
  then have ne: "q \<noteq> x ! j" using assms(1) nth_mem by metis
  let ?b = "w ! j / (q - x ! j)"
  have step: "computeApprox_loop q x C w (Suc j) num' denom' =
      mp_div (num' + (\<Sum>k = Suc j..<length x. w ! k / (q - x ! k) * C ! k))
             (denom' + (\<Sum>k = Suc j..<length x. w ! k / (q - x ! k)))" for num' denom'
    using Suc lt by simp
  have head: "(\<Sum>k = j..<length x. f k) = f j + (\<Sum>k = Suc j..<length x. f k)" for f :: "nat \<Rightarrow> real"
    using lt by (simp add: sum.atLeast_Suc_lessThan)
  have "computeApprox_loop q x C w j num denom =
      computeApprox_loop q x C w (Suc j) (fma ?b (C ! j) num) (denom + ?b)"
    using lt assms(2,3) ne by (subst computeApprox_loop.simps) (simp add: vec_get_def mp_div_def)
  also have "\<dots> = mp_div (fma ?b (C ! j) num + (\<Sum>k = Suc j..<length x. w ! k / (q - x ! k) * C ! k))
      (denom + ?b + (\<Sum>k = Suc j..<length x. w ! k / (q - x ! k)))"
    by (rule step)
  also have "fma ?b (C ! j) num + (\<Sum>k = Suc j..<length x. w ! k / (q - x ! k) * C ! k) =
      num + (\<Sum>k = j..<length x. w ! k / (q - x ! k) * C ! k)"
    unfolding head[of "\<lambda>k. w ! k / (q - x ! k) * C ! k"] fma_def by simp
  also have "denom + ?b + (\<Sum>k = Suc j..<length x. w ! k / (q - x ! k)) =
      denom + (\<Sum>k = j..<length x. w ! k / (q - x ! k))"
    unfolding head[of "\<lambda>k. w ! k / (q - x ! k)"] by simp
  finally show ?case .
qed

lemma fst_computeApprox:
  "fst (computeApprox omega x C w prec s) = computeApprox_loop omega x C w 0 0 0"
  by (simp add: computeApprox_def Let_def)

text \<open>
  In exact arithmetic \<^verbatim>\<open>computeApprox\<close> returns \<open>C\<^sub>i\<close> at the node \<open>x\<^sub>i\<close> and, at a
  point \<open>q\<close> that is no node, the quotient of \<open>\<Sum>\<^sub>i (w\<^sub>i / (q - x\<^sub>i)) C\<^sub>i\<close> by
  \<open>\<Sum>\<^sub>i w\<^sub>i / (q - x\<^sub>i)\<close>.
\<close>

lemma computeApprox_exact:
  assumes "distinct x" and "length C = length x" and "length w = length x"
  shows "(\<forall>i<length x. fst (computeApprox (x ! i) x C w prec s) = Inr (C ! i)) \<and>
         (\<forall>q. q \<notin> set x \<longrightarrow>
            fst (computeApprox q x C w prec s) =
              mp_div (\<Sum>i<length x. w ! i / (q - x ! i) * C ! i)
                     (\<Sum>i<length x. w ! i / (q - x ! i)))"
proof (intro conjI allI impI)
  fix i assume "i < length x"
  then show "fst (computeApprox (x ! i) x C w prec s) = Inr (C ! i)"
    using computeApprox_loop_hit[OF _ distinct_before[OF assms(1)] assms(2,3), of i 0 0 0]
    by (simp add: fst_computeApprox)
next
  fix q assume "q \<notin> set x"
  then show "fst (computeApprox q x C w prec s) =
      mp_div (\<Sum>i<length x. w ! i / (q - x ! i) * C ! i) (\<Sum>i<length x. w ! i / (q - x ! i))"
    using computeApprox_loop_miss[OF _ assms(2,3), of q 0 0 0]
    by (simp add: fst_computeApprox lessThan_atLeast0)
qed

section \<open>The round trip of the reference error\<close>

lemma computeDelta_value:
  "fst (computeDelta x bands prec s) =
     (case for_loop 0 (length x) (barycentricWeights_body x) (replicate (length x) 0) of
        Inl e \<Rightarrow> Inl e
      | Inr w \<Rightarrow> computeDelta_sums w x bands)"
  by (simp only: computeDelta_unfold fst_barycentricWeights)

lemma for_loop_fails:
  assumes "i \<le> k" and "k < n" and "\<And>v. \<exists>e. body k v = Inl e"
  shows "\<exists>e. for_loop i n body a = Inl e"
  using assms(1)
proof (induction "k - i" arbitrary: i a)
  case 0
  then have "i = k" by simp
  then show ?case using assms(2) assms(3)[of a] by (subst for_loop.simps) auto
next
  case (Suc d)
  then have lt: "i < k" by simp
  show ?case
  proof (cases "body i a")
    case (Inl e)
    then show ?thesis using lt assms(2) by (subst for_loop.simps) simp
  next
    case (Inr a')
    have "\<exists>e. for_loop (Suc i) n body a' = Inl e"
      using Suc.hyps(1)[of "Suc i" a'] Suc.hyps(2) lt by simp
    then show ?thesis using Inr lt assms(2) by (subst for_loop.simps) simp
  qed
qed

lemma barycentricWeights_body_fails:
  assumes "k < length x" and "m < length x" and "m \<noteq> k" and "x ! m = x ! k"
  shows "barycentricWeights_body x k w = Inl DivisionByZero"
proof -
  have "m \<in> {..<length x} - {k}" using assms by simp
  moreover have "2 * (x ! k - x ! m) = 0" using assms(4) by simp
  ultimately have "(\<Prod>j \<in> {..<length x} - {k}. 2 * (x ! k - x ! j)) = 0"
    using prod_zero[of "{..<length x} - {k}" "\<lambda>j. 2 * (x ! k - x ! j)"] by blast
  then show ?thesis
    by (simp add: barycentricWeights_body_def weights_j_weight mp_div_def)
qed

lemma weights_defined_distinct:
  assumes "for_loop 0 (length x) (barycentricWeights_body x) w = Inr w'"
  shows "distinct x"
proof (rule ccontr)
  assume "\<not> distinct x"
  then obtain k m where km: "k < length x" "m < length x" "m \<noteq> k" "x ! m = x ! k"
    unfolding distinct_conv_nth by blast
  have "\<exists>e. for_loop 0 (length x) (barycentricWeights_body x) w = Inl e"
    by (rule for_loop_fails[of 0 k]) (use km barycentricWeights_body_fails[OF km] in auto)
  then show False using assms by simp
qed

lemma computeDelta_body_fails:
  assumes "k < length x" and "covered bands (x ! k)" and "ideal_weight bands (x ! k) = 0"
  shows "computeDelta_body w x bands k v = Inl DivisionByZero"
  using assms
  by (cases v) (simp add: computeDelta_body_def vec_get_def lookup_covered mp_div_def Let_def)

lemma computeDelta_sums_weights_nonzero:
  assumes "computeDelta_sums w x bands = Inr delta" and "length w \<le> length x"
    and "\<forall>i<length w. covered bands (x ! i)" and "k < length w"
  shows "ideal_weight bands (x ! k) \<noteq> 0"
proof
  assume z: "ideal_weight bands (x ! k) = 0"
  have "\<exists>e. for_loop 0 (length w) (computeDelta_body w x bands) (0, 0, 0, 0) = Inl e"
    by (rule for_loop_fails[of 0 k])
       (use assms(2,3,4) computeDelta_body_fails[OF _ _ z, of w] in auto)
  then show False using assms(1) by (auto simp: computeDelta_sums_def)
qed


text \<open>
  Claim C7.  Whenever \<^verbatim>\<open>computeDelta\<close> returns a real number \<open>delta\<close> for a node set and a
  band model that covers it, the round trip through the samples reproduces \<open>delta\<close>, exactly
  (in exact arithmetic): \<^verbatim>\<open>computeC\<close> builds samples \<open>C'\<close> from that \<open>delta\<close>; every sample
  gives \<open>delta\<close> back as its weighted deviation \<open>(C'\<^sub>i - D\<^sub>i) W\<^sub>i\<close>, which is \<open>+delta\<close> at an even
  index and \<open>-delta\<close> at an odd one; the samples are the ones that belong to this \<open>delta\<close>, in
  that their sum weighted by the barycentric weights vanishes, so the quotient of section
  4.3 taken from them, \<open>(\<Sum>\<^sub>i w\<^sub>i D\<^sub>i - \<Sum>\<^sub>i w\<^sub>i C'\<^sub>i) / \<Sum>\<^sub>i sign\<^sub>i (w\<^sub>i / W\<^sub>i)\<close>, is \<open>delta\<close> again;
  and \<^verbatim>\<open>computeDelta\<close>, called again on the same nodes and bands after \<^verbatim>\<open>computeC\<close>,
  returns the same \<open>delta\<close>, whatever the three precision arguments are.
\<close>

theorem computeDelta_round_trip:
  assumes "computeDelta x bands prec1 s = (Inr delta, s1)"
    and "\<forall>i<length x. covered bands (x ! i)"
    and "length x \<le> length C"
  shows "\<exists>C' s2 w.
           computeC C delta x bands prec2 s1 = (Inr C', s2) \<and>
           (\<forall>i<length x.
              (C' ! i - ideal_amplitude bands (x ! i)) * ideal_weight bands (x ! i) =
                (if even i then delta else - delta)) \<and>
           fst (barycentricWeights (replicate (length x) 0) x prec1 s) = Inr w \<and>
           (\<Sum>i<length x. w ! i * C' ! i) = 0 \<and>
           ((\<Sum>i<length x. w ! i * ideal_amplitude bands (x ! i)) - (\<Sum>i<length x. w ! i * C' ! i)) /
             (\<Sum>i<length x. reference_sign i * (w ! i / ideal_weight bands (x ! i))) = delta \<and>
           fst (computeDelta x bands prec3 s2) = Inr delta"
proof -
  let ?n = "length x"
  let ?D = "\<lambda>i. ideal_amplitude bands (x ! i)" and ?W = "\<lambda>i. ideal_weight bands (x ! i)"
  have val: "fst (computeDelta x bands prec1 s) = Inr delta" using assms(1) by simp
  then obtain w where loop: "for_loop 0 ?n (barycentricWeights_body x) (replicate ?n 0) = Inr w"
    and sums: "computeDelta_sums w x bands = Inr delta"
    unfolding computeDelta_value by (auto split: sum.splits)
  have dist: "distinct x" by (rule weights_defined_distinct[OF loop])
  have "?n \<le> length (replicate ?n (0 :: real))" by simp
  from barycentricWeights_loop[OF dist this] loop
  have lw: "length w = ?n" by auto
  have cov: "\<forall>i<length w. covered bands (x ! i)" using assms(2) lw by simp
  have nz: "\<forall>i<?n. ?W i \<noteq> 0"
    using computeDelta_sums_weights_nonzero[OF sums _ cov] lw by simp
  let ?num = "\<Sum>i<?n. w ! i * ?D i"
  let ?den = "\<Sum>i<?n. reference_sign i * (w ! i / ?W i)"
  have "computeDelta_sums w x bands = mp_div ?num ?den"
    using computeDelta_sums_formula[of w x bands] cov nz lw by simp
  then have den: "?den \<noteq> 0" and delta: "delta = ?num / ?den"
    using sums by (auto simp: mp_div_def split: if_splits)
  obtain C' where C': "fst (computeC C delta x bands prec2 s1) = Inr C'"
    and samples: "\<forall>i<?n. C' ! i = ?D i + delta / (if odd i then - ?W i else ?W i)"
    using computeC_exact[OF assms(2) nz assms(3), of delta prec2 s1] by blast
  have each: "(C' ! i - ?D i) * ?W i = (if even i then delta else - delta)" if "i < ?n" for i
  proof -
    have "C' ! i = ?D i + delta / (if odd i then - ?W i else ?W i)" and "?W i \<noteq> 0"
      using samples nz that by blast+
    then show ?thesis by (cases "even i") simp_all
  qed
  have summand: "w ! i * C' ! i = w ! i * ?D i - delta * (reference_sign i * (w ! i / ?W i))"
    if "i < ?n" for i
  proof -
    have c: "C' ! i = ?D i + delta / (if odd i then - ?W i else ?W i)" and z: "?W i \<noteq> 0"
      using samples nz that by blast+
    show ?thesis unfolding c using z
      by (cases "even i") (simp_all add: reference_sign_def field_simps)
  qed
  have "(\<Sum>i<?n. w ! i * C' ! i) =
      (\<Sum>i<?n. w ! i * ?D i - delta * (reference_sign i * (w ! i / ?W i)))"
    by (rule sum.cong) (use summand in auto)
  also have "\<dots> = ?num - delta * ?den"
    by (simp add: sum_subtractf sum_distrib_left)
  also have "\<dots> = 0" using den delta by simp
  finally have zero: "(\<Sum>i<?n. w ! i * C' ! i) = 0" .
  have again: "fst (computeDelta x bands prec3 (snd (computeC C delta x bands prec2 s1))) = Inr delta"
    using val by (simp only: computeDelta_value)
  have "computeC C delta x bands prec2 s1 = (Inr C', snd (computeC C delta x bands prec2 s1))"
    using C' by (metis prod.collapse)
  moreover have "fst (barycentricWeights (replicate ?n 0) x prec1 s) = Inr w"
    using loop by (simp only: fst_barycentricWeights)
  moreover have "(?num - (\<Sum>i<?n. w ! i * C' ! i)) / ?den = delta"
    using zero delta by simp
  ultimately show ?thesis using each zero again by blast
qed

theorem computeDelta_round_trip_witness:
  "\<exists>C' s2 w.
     computeC [0, 0] (1 / 2) [0, 1]
       [\<lparr>start = - 1, stop = 1, space = FREQ, amplitude = (\<lambda>_ v. v + 1), weight = (\<lambda>_ v. 1)\<rparr>]
       165 \<lparr>default_prec = 53\<rparr> = (Inr C', s2) \<and>
     (C' ! 0 - 1) * 1 = 1 / 2 \<and> (C' ! 1 - 2) * 1 = - (1 / 2) \<and>
     fst (barycentricWeights [0, 0] [0, 1] 165 \<lparr>default_prec = 53\<rparr>) = Inr w \<and>
     w ! 0 * C' ! 0 + w ! 1 * C' ! 1 = 0 \<and>
     fst (computeDelta [0, 1]
       [\<lparr>start = - 1, stop = 1, space = FREQ, amplitude = (\<lambda>_ v. v + 1), weight = (\<lambda>_ v. 1)\<rparr>]
       200 s2) = Inr (1 / 2)"
proof -
  let ?bands = "[\<lparr>start = - 1, stop = 1, space = FREQ, amplitude = (\<lambda>_ v. v + 1), weight = (\<lambda>_ v. 1)\<rparr>]"
  have a: "computeDelta [0, 1] ?bands 165 \<lparr>default_prec = 53\<rparr> = (Inr (1 / 2), \<lparr>default_prec = 53\<rparr>)"
    by (simp add: computeDelta_def barycentricWeights_def for_loop.simps
        barycentricWeights_body_def weights_j.simps weights_k.simps step_of_def size_sub_def
        mp_div_def vec_set_def vec_get_def computeDelta_sums_def computeDelta_body_def fma_def
        get_default_prec_def set_default_prec_def prec_default_argument_def Let_def)
  have b: "\<forall>i<length [0, 1 :: real]. covered ?bands ([0, 1] ! i)"
    by (simp add: covered_def in_band_def less_Suc_eq)
  have c: "length [0, 1 :: real] \<le> length [0, 0 :: real]" by simp
  from computeDelta_round_trip[OF a b c, of 165 200]
  obtain C' s2 w where h:
    "computeC [0, 0] (1 / 2) [0, 1] ?bands 165 \<lparr>default_prec = 53\<rparr> = (Inr C', s2)"
    "\<forall>i<length [0, 1 :: real].
       (C' ! i - ideal_amplitude ?bands ([0, 1] ! i)) * ideal_weight ?bands ([0, 1] ! i) =
         (if even i then 1 / 2 else - (1 / 2))"
    "fst (barycentricWeights (replicate (length [0, 1 :: real]) 0) [0, 1] 165 \<lparr>default_prec = 53\<rparr>) = Inr w"
    "(\<Sum>i<length [0, 1 :: real]. w ! i * C' ! i) = 0"
    "fst (computeDelta [0, 1] ?bands 200 s2) = Inr (1 / 2)"
    by blast
  have "(C' ! 0 - 1) * 1 = 1 / 2" using h(2)[rule_format, of 0]
    by (simp add: ideal_amplitude_def ideal_weight_def in_band_def)
  moreover have "(C' ! 1 - 2) * 1 = - (1 / 2)" using h(2)[rule_format, of 1]
    by (simp add: ideal_amplitude_def ideal_weight_def in_band_def)
  moreover have "w ! 0 * C' ! 0 + w ! 1 * C' ! 1 = 0" using h(4)
    by (simp add: sum_below_as_list)
  moreover have "fst (barycentricWeights [0, 0] [0, 1] 165 \<lparr>default_prec = 53\<rparr>) = Inr w"
    using h(3) by (simp add: numeral_2_eq_2)
  ultimately show ?thesis using h(1,5) by blast
qed

section \<open>Numbers that need no rounding\<close>

lemma round_to_even_int: "round_to_even (of_int n) = n"
  by (simp add: round_to_even_def)

lemma mp_round_exact:
  assumes v: "v = of_int m * 2 powr of_int k" and m: "\<bar>m\<bar> < 2 ^ nat p" and p: "1 \<le> p"
  shows "mp_round p v = v"
proof (cases "m = 0")
  case True
  then show ?thesis using v by (simp add: mp_round_def)
next
  case False
  define L where "L = \<lfloor>log 2 (of_int \<bar>m\<bar>)\<rfloor>"
  have mpos: "0 < (of_int \<bar>m\<bar> :: real)" using False by simp
  have Lb: "(2 :: real) powr of_int L \<le> of_int \<bar>m\<bar>" "of_int \<bar>m\<bar> < (2 :: real) powr (of_int L + 1)"
    using floor_log_eq_powr_iff[OF mpos, of 2 L] by (simp_all add: L_def)
  have "of_int \<bar>m\<bar> < (2 :: real) ^ nat p" using m by (metis of_int_less_iff of_int_numeral of_int_power)
  also have "\<dots> = 2 powr of_int p" using p by (simp add: powr_realpow[symmetric])
  finally have "2 powr of_int L < (2 :: real) powr of_int p" using Lb(1) by linarith
  then have Lp: "L < p" by simp
  have vabs: "\<bar>v\<bar> = of_int \<bar>m\<bar> * 2 powr of_int k" using v by (simp add: abs_mult)
  have vne: "v \<noteq> 0" using v False by simp
  have "2 powr of_int (L + k) \<le> \<bar>v\<bar>"
    unfolding vabs using Lb(1) by (simp add: powr_add)
  moreover have "\<bar>v\<bar> < 2 powr (of_int (L + k) + 1)"
    unfolding vabs using Lb(2) by (simp add: powr_add algebra_simps)
  ultimately have fl: "\<lfloor>log 2 \<bar>v\<bar>\<rfloor> = L + k"
    using floor_log_eq_powr_iff[of "\<bar>v\<bar>" 2 "L + k"] vne by simp
  define d where "d = nat (p - 1 - L)"
  have d: "int d = p - 1 - L" using Lp by (simp add: d_def)
  have ulp: "(2 :: real) powr of_int (L + k + 1 - p) = 2 powr of_int k / 2 ^ d"
  proof -
    have "real d = of_int (p - 1 - L)" using d by (metis of_int_of_nat_eq)
    then have e: "(of_int (L + k + 1 - p) :: real) = of_int k - real d" by simp
    have "(2 :: real) powr of_int (L + k + 1 - p) = 2 powr (of_int k - real d)" unfolding e ..
    also have "\<dots> = 2 powr of_int k / 2 powr real d" by (rule powr_diff)
    also have "(2 :: real) powr real d = 2 ^ d" by (simp add: powr_realpow)
    finally show ?thesis .
  qed
  define U where "U = (2 :: real) powr of_int (L + k + 1 - p)"
  have q: "v / U = of_int (m * 2 ^ d)"
    unfolding U_def ulp using v by simp
  have "mp_round p v = of_int (round_to_even (v / U)) * U"
    using vne by (simp only: mp_round_def fl U_def Let_def if_False)
  also have "\<dots> = of_int (m * 2 ^ d) * U"
    by (simp only: q round_to_even_int)
  also have "\<dots> = v"
    unfolding U_def ulp using v by simp
  finally show ?thesis .
qed

lemma mp_round_small_int: "\<bar>m\<bar> < 2 ^ nat p \<Longrightarrow> 1 \<le> p \<Longrightarrow> mp_round p (of_int m) = of_int m"
  using mp_round_exact[of "of_int m" m 0 p] by simp

lemma mp_round_165:
  "mp_round 165 1 = 1" "mp_round 165 2 = 2" "mp_round 165 3 = 3" "mp_round 165 4 = 4"
  "mp_round 165 5 = 5" "mp_round 165 (- 1) = - 1" "mp_round 165 (- 2) = - 2"
  "mp_round 165 (- 4) = - 4"
  using mp_round_small_int[of 1 165] mp_round_small_int[of 2 165] mp_round_small_int[of 3 165]
    mp_round_small_int[of 4 165] mp_round_small_int[of 5 165] mp_round_small_int[of "- 1" 165]
    mp_round_small_int[of "- 2" 165] mp_round_small_int[of "- 4" 165]
  by simp_all

lemma mp_round_165_fractions:
  "mp_round 165 (1 / 2) = 1 / 2" "mp_round 165 (- (1 / 2)) = - (1 / 2)"
  "mp_round 165 (1 / 4) = 1 / 4" "mp_round 165 (- (1 / 4)) = - (1 / 4)"
  "mp_round 165 (5 / 2) = 5 / 2"
  using mp_round_exact[of "1 / 2" 1 "- 1" 165] mp_round_exact[of "- (1 / 2)" "- 1" "- 1" 165]
    mp_round_exact[of "1 / 4" 1 "- 2" 165] mp_round_exact[of "- (1 / 4)" "- 1" "- 2" 165]
    mp_round_exact[of "5 / 2" 5 "- 1" 165]
  by (simp_all add: powr_minus powr_numeral)

section \<open>The kernel in MPFR arithmetic: the response samples\<close>

lemma lookup_covered_mp:
  "covered_mp bands v \<Longrightarrow>
     computeIdealResponseAndWeight_mp D W v bands =
       (ideal_amplitude_mp bands v, ideal_weight_mp bands v)"
  by (induction bands)
     (auto simp: covered_mp_def in_band_mp_def mp_ge_def ideal_amplitude_mp_def
        ideal_weight_mp_def)

lemma computeC_body_mp_ok:
  assumes "covered_mp bands (omega ! i)" and "i < length C"
  shows "\<exists>W'. computeC_body_mp p delta omega bands i (C, D, W) =
           Inr (C[i := response_sample_mp p delta bands omega i],
                ideal_amplitude_mp bands (omega ! i), W')"
  using assms
  by (simp add: computeC_body_mp_def lookup_covered_mp vec_set_def response_sample_mp_def
      odd_iff_mod_2_eq_one Let_def)

lemma computeC_loop_mp:
  assumes cov: "\<forall>i<length omega. covered_mp bands (omega ! i)"
    and len: "length omega \<le> length C"
  shows "\<exists>C' D W. for_loop 0 (length omega) (computeC_body_mp p delta omega bands)
             (C, Num 0, Num 0) = Inr (C', D, W) \<and>
           length C' = length C \<and>
           (\<forall>i<length omega. C' ! i = response_sample_mp p delta bands omega i)"
proof -
  let ?I = "\<lambda>k v. case v of (C', D, W) \<Rightarrow> length C' = length C \<and>
                (\<forall>i<k. C' ! i = response_sample_mp p delta bands omega i)"
  have "\<exists>v'. for_loop 0 (length omega) (computeC_body_mp p delta omega bands)
            (C, Num 0, Num 0) = Inr v' \<and> ?I (length omega) v'"
  proof (rule for_loop_invariant[where I = ?I])
    show "?I 0 (C, Num 0, Num 0)" by simp
    show "0 \<le> length omega" by simp
  next
    fix k and v :: "mpreal list \<times> mpreal \<times> mpreal"
    assume k: "0 \<le> k" "k < length omega" and inv: "?I k v"
    obtain C' D W where v: "v = (C', D, W)" by (cases v) auto
    have kC: "k < length C'" using inv v k(2) len by simp
    from computeC_body_mp_ok[OF cov[rule_format, OF k(2)] kC, where p = p and delta = delta
        and D = D and W = W]
    obtain W' where b: "computeC_body_mp p delta omega bands k v =
        Inr (C'[k := response_sample_mp p delta bands omega k],
             ideal_amplitude_mp bands (omega ! k), W')"
      using v by auto
    moreover have "?I (Suc k) (C'[k := response_sample_mp p delta bands omega k],
        ideal_amplitude_mp bands (omega ! k), W')"
      using inv v kC by (auto simp: nth_list_update less_Suc_eq)
    ultimately show "\<exists>v'. computeC_body_mp p delta omega bands k v = Inr v' \<and> ?I (Suc k) v'"
      by blast
  qed
  then show ?thesis by auto
qed

text \<open>
  Claim C6.  For every \<open>delta\<close>, node set and band model covering all nodes (and an output
  vector with room for the samples), \<^verbatim>\<open>computeC\<close> produces \<open>C\<^sub>i = D\<^sub>i + delta / W\<^sub>i'\<close> for each
  index \<open>i\<close>, where \<open>D\<^sub>i\<close> and \<open>W\<^sub>i\<close> are the ideal amplitude and weight at node \<open>i\<close> and
  \<open>W\<^sub>i'\<close> is \<open>W\<^sub>i\<close> with its sign flipped exactly when \<open>i\<close> is odd (zero-based).  The sum
  and the quotient are those of the code, rounded at the precision \<open>prec\<close>; a weight of
  zero gives an infinite sample.
\<close>

theorem computeC_mp_samples:
  assumes "\<forall>i<length omega. covered_mp bands (omega ! i)"
    and "length omega \<le> length C"
  shows "\<exists>C'. fst (computeC_mp C delta omega bands prec s) = Inr C' \<and> length C' = length C \<and>
           (\<forall>i<length omega.
              C' ! i =
                mp_add prec (ideal_amplitude_mp bands (omega ! i))
                  (mp_quot prec delta
                     (if odd i then mp_neg (ideal_weight_mp bands (omega ! i))
                      else ideal_weight_mp bands (omega ! i))))"
proof -
  obtain C' D W where
    l: "for_loop 0 (length omega) (computeC_body_mp prec delta omega bands) (C, Num 0, Num 0) =
          Inr (C', D, W)"
    and p: "length C' = length C"
      "\<forall>i<length omega. C' ! i = response_sample_mp prec delta bands omega i"
    using computeC_loop_mp[OF assms] by blast
  have "fst (computeC_mp C delta omega bands prec s) = Inr C'"
    using l by (simp add: computeC_mp_def get_default_prec_def set_default_prec_def Let_def)
  then show ?thesis using p unfolding response_sample_mp_def by blast
qed

theorem computeC_mp_samples_witness:
  "\<exists>C'. fst (computeC_mp [Num 0, Num 0, Num 0] (Num 1) [Num (- 1), Num 0, Num 1]
            [\<lparr>mp_start = Num (- 1), mp_stop = Num 0, mp_space = FREQ,
               mp_amplitude = (\<lambda>_ v. Num 1), mp_weight = (\<lambda>_ v. Num 1)\<rparr>,
             \<lparr>mp_start = Num (1 / 2), mp_stop = Num 1, mp_space = FREQ,
               mp_amplitude = (\<lambda>_ v. Num 0), mp_weight = (\<lambda>_ v. Num 0)\<rparr>]
            165 \<lparr>default_prec = 53\<rparr>) = Inr C' \<and>
      length C' = 3 \<and> C' ! 0 = Num 2 \<and> C' ! 1 = Num 0 \<and> C' ! 2 = PInf"
proof -
  let ?bands = "[\<lparr>mp_start = Num (- 1), mp_stop = Num 0, mp_space = FREQ,
               mp_amplitude = (\<lambda>_ v. Num 1), mp_weight = (\<lambda>_ v. Num 1)\<rparr>,
             \<lparr>mp_start = Num (1 / 2), mp_stop = Num 1, mp_space = FREQ,
               mp_amplitude = (\<lambda>_ v. Num 0), mp_weight = (\<lambda>_ v. Num 0)\<rparr>]"
  let ?x = "[Num (- 1), Num 0, Num 1]"
  have "\<forall>i<length ?x. covered_mp ?bands (?x ! i)"
    "length ?x \<le> length [Num 0, Num 0, Num 0]"
    by (simp_all add: covered_mp_def in_band_mp_def mp_le_def less_Suc_eq)
  from computeC_mp_samples[OF this, of "Num 1" 165 "\<lparr>default_prec = 53\<rparr>"]
  obtain C' where h: "fst (computeC_mp [Num 0, Num 0, Num 0] (Num 1) ?x ?bands 165
        \<lparr>default_prec = 53\<rparr>) = Inr C'"
    "length C' = length [Num 0, Num 0, Num 0]"
    "\<forall>i<length ?x. C' ! i =
        mp_add 165 (ideal_amplitude_mp ?bands (?x ! i))
          (mp_quot 165 (Num 1)
             (if odd i then mp_neg (ideal_weight_mp ?bands (?x ! i))
              else ideal_weight_mp ?bands (?x ! i)))"
    by blast
  have "C' ! 0 = Num 2" using h(3)[rule_format, of 0]
    by (simp add: ideal_amplitude_mp_def ideal_weight_mp_def in_band_mp_def mp_le_def
        mp_add_def mp_quot_def mp_round_165)
  moreover have "C' ! 1 = Num 0" using h(3)[rule_format, of 1]
    by (simp add: ideal_amplitude_mp_def ideal_weight_mp_def in_band_mp_def mp_le_def
        mp_add_def mp_quot_def mp_round_165)
  moreover have "C' ! 2 = PInf" using h(3)[rule_format, of 2]
    by (simp add: ideal_amplitude_mp_def ideal_weight_mp_def in_band_mp_def mp_le_def
        mp_add_def mp_quot_def signed_inf_def)
  ultimately show ?thesis using h(1,2) by simp
qed

section \<open>The kernel in MPFR arithmetic: the interpolant\<close>

lemma mp_eq_sym: "mp_eq a b \<Longrightarrow> mp_eq b a"
  by (simp add: mp_eq_def)

lemma mp_le_trans: "mp_le a b \<Longrightarrow> mp_le b c \<Longrightarrow> mp_le a c"
  by (cases a; cases b; cases c) (auto simp: mp_le_def)

lemma mp_eq_trans: "mp_eq a b \<Longrightarrow> mp_eq b c \<Longrightarrow> mp_eq a c"
  unfolding mp_eq_def using mp_le_trans by blast

lemma computeApprox_loop_mp_hit:
  assumes "i < length x" and "mp_eq q (x ! i)" and "\<forall>k<i. \<not> mp_eq q (x ! k)"
    and "length C = length x" and "length w = length x" and "j \<le> i"
  shows "computeApprox_loop_mp p q x C w j num denom = Inr (C ! i)"
  using assms(6)
proof (induction "i - j" arbitrary: j num denom)
  case 0
  then have "j = i" by simp
  then show ?case using assms(1,2,4)
    by (subst computeApprox_loop_mp.simps) (simp add: vec_get_def)
next
  case (Suc d)
  then have lt: "j < i" by simp
  then have ne: "\<not> mp_eq q (x ! j)" using assms(3) by blast
  have step: "computeApprox_loop_mp p q x C w (Suc j) num' denom' = Inr (C ! i)" for num' denom'
    using Suc lt by simp
  show ?case using lt assms(1,4,5) ne
    by (subst computeApprox_loop_mp.simps) (simp add: vec_get_def step Let_def)
qed

lemma computeApprox_loop_mp_miss:
  assumes "\<forall>k<length x. \<not> mp_eq q (x ! k)" and "length C = length x" and "length w = length x"
    and "j \<le> length x"
  shows "computeApprox_loop_mp p q x C w j num denom =
           Inr (mp_quot p
                  (foldl (\<lambda>num i. mp_fma p (mp_quot p (w ! i) (mp_sub p q (x ! i))) (C ! i) num)
                     num [j..<length x])
                  (foldl (\<lambda>denom i. mp_add p denom (mp_quot p (w ! i) (mp_sub p q (x ! i))))
                     denom [j..<length x]))"
  using assms(4)
proof (induction "length x - j" arbitrary: j num denom)
  case 0
  then have "j = length x" by simp
  then show ?case by (subst computeApprox_loop_mp.simps) simp
next
  case (Suc d)
  then have lt: "j < length x" by simp
  then have ne: "\<not> mp_eq q (x ! j)" using assms(1) by blast
  let ?b = "mp_quot p (w ! j) (mp_sub p q (x ! j))"
  have step: "computeApprox_loop_mp p q x C w (Suc j) num' denom' =
      Inr (mp_quot p
             (foldl (\<lambda>num i. mp_fma p (mp_quot p (w ! i) (mp_sub p q (x ! i))) (C ! i) num)
                num' [Suc j..<length x])
             (foldl (\<lambda>denom i. mp_add p denom (mp_quot p (w ! i) (mp_sub p q (x ! i))))
                denom' [Suc j..<length x]))" for num' denom'
    using Suc lt by simp
  have "computeApprox_loop_mp p q x C w j num denom =
      computeApprox_loop_mp p q x C w (Suc j) (mp_fma p ?b (C ! j) num) (mp_add p denom ?b)"
    using lt assms(2,3) ne
    by (subst computeApprox_loop_mp.simps) (simp add: vec_get_def Let_def)
  then show ?case unfolding step upt_conv_Cons[OF lt] by simp
qed

lemma fst_computeApprox_mp:
  "fst (computeApprox_mp omega x C w prec s) =
     computeApprox_loop_mp prec omega x C w 0 (Num 0) (Num 0)"
  by (simp add: computeApprox_mp_def get_default_prec_def set_default_prec_def Let_def)

text \<open>
  Claim C5.  For a node set \<open>x\<close> with distinct entries and index-aligned vectors \<open>C\<close> and
  \<open>w\<close>, \<^verbatim>\<open>computeApprox\<close> at a query point equal to some \<open>x\<^sub>i\<close> returns \<open>C\<^sub>i\<close> itself, by
  the branch taken on the equality test, and at a query point \<open>q\<close> equal to no node returns
  \<open>num / denom\<close> with \<open>num = \<Sum>\<^sub>i (w\<^sub>i / (q - x\<^sub>i)) C\<^sub>i\<close> and \<open>denom = \<Sum>\<^sub>i w\<^sub>i / (q - x\<^sub>i)\<close>.
  Equality is that of \<^verbatim>\<open>==\<close> on \<^verbatim>\<open>mpreal\<close>; the differences, quotients and sums are
  those of the code, rounded at the precision \<open>prec\<close>.
\<close>

theorem computeApprox_mp_cases:
  assumes "\<forall>i<length x. \<forall>j<i. \<not> mp_eq (x ! i) (x ! j)"
    and "length C = length x" and "length w = length x"
  shows "(\<forall>q i. i < length x \<and> mp_eq q (x ! i) \<longrightarrow>
            fst (computeApprox_mp q x C w prec s) = Inr (C ! i)) \<and>
         (\<forall>q. (\<forall>i<length x. \<not> mp_eq q (x ! i)) \<longrightarrow>
            fst (computeApprox_mp q x C w prec s) =
              Inr (mp_quot prec (approx_num prec q x C w) (approx_denom prec q x w)))"
proof (intro conjI allI impI)
  fix q i assume h: "i < length x \<and> mp_eq q (x ! i)"
  have "\<not> mp_eq q (x ! k)" if "k < i" for k
  proof
    assume "mp_eq q (x ! k)"
    then have "mp_eq (x ! i) (x ! k)" using h mp_eq_sym mp_eq_trans by blast
    then show False using assms(1) h that by blast
  qed
  then show "fst (computeApprox_mp q x C w prec s) = Inr (C ! i)"
    using computeApprox_loop_mp_hit[OF _ _ _ assms(2,3), of i q 0 prec "Num 0" "Num 0"] h
    by (simp add: fst_computeApprox_mp)
next
  fix q assume "\<forall>i<length x. \<not> mp_eq q (x ! i)"
  then show "fst (computeApprox_mp q x C w prec s) =
      Inr (mp_quot prec (approx_num prec q x C w) (approx_denom prec q x w))"
    using computeApprox_loop_mp_miss[OF _ assms(2,3), of q 0 prec "Num 0" "Num 0"]
    by (simp add: fst_computeApprox_mp approx_num_def approx_denom_def)
qed

theorem computeApprox_mp_cases_witness:
  "fst (computeApprox_mp (Num 1) [Num 0, Num 1] [Num 1, Num 3] [Num (- 1), Num 1] 165
          \<lparr>default_prec = 53\<rparr>) = Inr (Num 3) \<and>
   fst (computeApprox_mp NegZero [Num 0, Num 1] [Num 1, Num 3] [Num (- 1), Num 1] 165
          \<lparr>default_prec = 53\<rparr>) = Inr (Num 1) \<and>
   fst (computeApprox_mp (Num 2) [Num 0, Num 1] [Num 1, Num 3] [Num (- 1), Num 1] 165
          \<lparr>default_prec = 53\<rparr>) = Inr (Num 5)"
proof -
  let ?x = "[Num 0, Num 1]" and ?C = "[Num 1, Num 3]" and ?w = "[Num (- 1), Num 1]"
  have "\<forall>i<length ?x. \<forall>j<i. \<not> mp_eq (?x ! i) (?x ! j)"
    "length ?C = length ?x" "length ?w = length ?x"
    by (simp_all add: mp_eq_def mp_le_def less_Suc_eq)
  note h = computeApprox_mp_cases[OF this, of 165 "\<lparr>default_prec = 53\<rparr>"]
  have a: "fst (computeApprox_mp (Num 1) ?x ?C ?w 165 \<lparr>default_prec = 53\<rparr>) = Inr (?C ! 1)"
    using h[THEN conjunct1, rule_format, of 1 "Num 1"] by (simp add: mp_eq_def mp_le_def)
  have b: "fst (computeApprox_mp NegZero ?x ?C ?w 165 \<lparr>default_prec = 53\<rparr>) = Inr (?C ! 0)"
    using h[THEN conjunct1, rule_format, of 0 NegZero] by (simp add: mp_eq_def mp_le_def)
  have nm: "\<forall>i<length ?x. \<not> mp_eq (Num 2) (?x ! i)"
    by (auto simp: mp_eq_def mp_le_def less_Suc_eq)
  have c: "fst (computeApprox_mp (Num 2) ?x ?C ?w 165 \<lparr>default_prec = 53\<rparr>) = Inr (Num 5)"
    using h[THEN conjunct2, THEN spec, of "Num 2", THEN mp, OF nm]
    by (simp add: approx_num_def approx_denom_def
        mp_quot_def mp_sub_def mp_add_def mp_fma_def mp_round_165 mp_round_165_fractions)
  show ?thesis using a b c by simp
qed

section \<open>The kernel in MPFR arithmetic: the reference error\<close>











section \<open>Exact and rounded results\<close>

lemma precision_restored_mp:
  "snd (barycentricWeights_mp w x prec s) = s \<and>
   snd (computeDelta_mp x bands prec s) = s \<and>
   snd (computeDelta_w_mp w x bands prec s) = s \<and>
   snd (computeC_mp C delta x bands prec s) = s \<and>
   snd (computeApprox_mp xVal x C w prec s) = s"
  by (simp add: barycentricWeights_mp_def computeDelta_mp_def computeDelta_w_mp_def
      computeC_mp_def computeApprox_mp_def get_default_prec_def set_default_prec_def Let_def
      split: prod.split)

lemma two_fifths_not_binary:
  "(2 / 5 :: real) \<noteq> of_int N * 2 powr of_int e"
proof
  assume h: "(2 / 5 :: real) = of_int N * 2 powr of_int e"
  have odd5: "\<not> (5 :: int) dvd 2 ^ n" for n
  proof -
    have "(2 :: int) ^ n mod 5 \<in> {1, 2, 3, 4}"
    proof (induction n)
      case 0
      show ?case by simp
    next
      case (Suc n)
      have "(2 :: int) ^ Suc n mod 5 = (2 * (2 ^ n mod 5)) mod 5"
        by (simp add: mod_mult_right_eq)
      then show ?case using Suc by auto
    qed
    then show ?thesis by (auto simp: dvd_eq_mod_eq_0)
  qed
  show False
  proof (cases "0 \<le> e")
    case True
    then have "(2 :: real) powr of_int e = 2 ^ nat e"
      by (metis of_int_of_nat_eq nat_0_le numeral_powr_numeral_real powr_realpow zero_less_numeral of_nat_nat)
    then have "(2 :: real) = of_int (5 * (N * 2 ^ nat e))" using h by simp
    then have "(2 :: int) = 5 * (N * 2 ^ nat e)" by (metis of_int_eq_iff of_int_numeral)
    then have "(5 :: int) dvd 2 ^ 1" by (metis dvd_triv_left power_one_right)
    then show False using odd5 by blast
  next
    case False
    define n where "n = nat (- e)"
    have "of_int e = - real n" using False by (simp add: n_def)
    then have pw: "(2 :: real) powr of_int e = 1 / 2 ^ n"
      by (simp add: powr_minus powr_realpow inverse_eq_divide)
    have "(2 / 5 :: real) = of_int N * (1 / 2 ^ n)" using h unfolding pw .
    then have "(2 :: real) * 2 ^ n = of_int (5 * N)" by (simp add: field_simps)
    then have "of_int (2 ^ Suc n) = (of_int (5 * N) :: real)" by simp
    then have "(2 :: int) ^ Suc n = 5 * N" by (metis of_int_eq_iff)
    then show False using odd5[of "Suc n"] by (metis dvd_triv_left)
  qed
qed

lemma mp_round_binary: "\<exists>N e. mp_round p v = of_int N * 2 powr of_int e"
proof (cases "v = 0")
  case True
  then have "mp_round p v = of_int 0 * 2 powr of_int 0" by (simp add: mp_round_def)
  then show ?thesis by blast
next
  case False
  then show ?thesis unfolding mp_round_def Let_def by (simp only: if_False) blast
qed

lemma mp_quot_not_two_fifths: "mp_quot p a b \<noteq> Num (2 / 5)"
proof -
  have "mp_round p r \<noteq> 2 / 5" for r
    using mp_round_binary[of p r] two_fifths_not_binary by metis
  then show ?thesis
    by (auto simp: mp_quot_def signed_inf_def signed_zero_def Let_def)
qed

text \<open>
  Where the two arithmetics part: at the query point 3 with nodes \<open>[0, 1]\<close>, samples
  \<open>[1, 0]\<close> and weights \<open>[1, 1]\<close> the exact quotient is \<open>2 / 5\<close>, which no \<^verbatim>\<open>mpreal\<close>
  holds; the rounded run returns another number.
\<close>

lemma computeApprox_rounds:
  "fst (computeApprox 3 [0, 1] [1, 0] [1, 1] 165 \<lparr>default_prec = 53\<rparr>) = Inr (2 / 5) \<and>
   fst (computeApprox_mp (Num 3) [Num 0, Num 1] [Num 1, Num 0] [Num 1, Num 1] 165
          \<lparr>default_prec = 53\<rparr>) \<noteq> Inr (Num (2 / 5))"
proof -
  have "fst (computeApprox 3 [0, 1] [1, 0] [1, 1] 165 \<lparr>default_prec = 53\<rparr>) = Inr (2 / 5)"
    by (simp add: computeApprox_def computeApprox_loop.simps vec_get_def mp_div_def fma_def
        get_default_prec_def set_default_prec_def Let_def)
  moreover have "fst (computeApprox_mp (Num 3) [Num 0, Num 1] [Num 1, Num 0] [Num 1, Num 1] 165
          \<lparr>default_prec = 53\<rparr>) \<noteq> Inr (Num (2 / 5))"
    by (simp add: computeApprox_mp_def computeApprox_loop_mp.simps vec_get_def
        get_default_prec_def set_default_prec_def Let_def mp_eq_def mp_le_def
        mp_quot_not_two_fifths)
  ultimately show ?thesis by blast
qed

end
